theory Spec2Isabelle
  imports Main "HOL-Library.List_Lexorder" "HOL-Library.Char_ord"
begin

section \<open>The filesystem\<close>

text \<open>
  MrClean.py reads and deletes directories through \<^verbatim>\<open>pathlib\<close> and \<^verbatim>\<open>shutil\<close>.
  The filesystem is a tree. A file has a name and a size in bytes (its \<^verbatim>\<open>st_size\<close>);
  a directory has a name, its entries in the order \<^verbatim>\<open>iterdir()\<close> yields them, and
  the outcome the environment has in store for \<^verbatim>\<open>shutil.rmtree\<close> on it: \<open>None\<close> when
  the removal goes through, \<open>Some e\<close> when it raises the exception \<open>e\<close> (a file in use,
  a permission denied).

  A \<^verbatim>\<open>Path\<close> handed to one of the program's functions is modelled by the node found
  at that path: the node carries the name (\<^verbatim>\<open>path.name\<close>), the kind
  (\<^verbatim>\<open>path.is_dir()\<close>) and everything below it, which is all these functions read.
  Symbolic links and unreadable directories are not modelled, names are compared
  byte by byte (a POSIX filesystem), and a failing \<^verbatim>\<open>rmtree\<close> is taken to leave the
  directory as it was.
\<close>

datatype node = File string nat | Dir string "string option" "node list"

type_synonym path = "string list"

fun node_name :: "node \<Rightarrow> string" where
  "node_name (File n _) = n"
| "node_name (Dir n _ _) = n"

fun is_dir :: "node \<Rightarrow> bool" where
  "is_dir (File _ _) = False"
| "is_dir (Dir _ _ _) = True"

text \<open>\<^verbatim>\<open>iterdir()\<close> raises \<^verbatim>\<open>NotADirectoryError\<close> (an \<^verbatim>\<open>OSError\<close>) on a file: \<open>None\<close>.\<close>

fun iterdir :: "node \<Rightarrow> node list option" where
  "iterdir (File _ _) = None"
| "iterdir (Dir _ _ entries) = Some entries"

text \<open>\<^verbatim>\<open>(path / a / b).exists()\<close>: follow the names down from the node.\<close>

fun exists_under :: "node \<Rightarrow> path \<Rightarrow> bool" where
  "exists_under p [] = True"
| "exists_under (File _ _) (a # rest) = False"
| "exists_under (Dir _ _ entries) (a # rest) =
     (case find (\<lambda>c. node_name c = a) entries of
        None \<Rightarrow> False
      | Some c \<Rightarrow> exists_under c rest)"

section \<open>Size of a directory\<close>

text \<open>
  \<^verbatim>\<open>get_dir_size\<close>: the sum of \<^verbatim>\<open>st_size\<close> over every file that
  \<^verbatim>\<open>path.rglob('*')\<close> reaches; directories add nothing themselves.
\<close>

fun get_dir_size :: "node \<Rightarrow> nat" where
  "get_dir_size (File _ sz) = 0"
| "get_dir_size (Dir _ _ entries) =
     sum_list (map (\<lambda>entry. case entry of File _ sz \<Rightarrow> sz | Dir _ _ _ \<Rightarrow> get_dir_size entry) entries)"

section \<open>Detection\<close>

definition indicators :: "path list" where
  "indicators = [[''pyvenv.cfg''], [''bin'', ''activate''], [''Scripts'', ''activate.bat'']]"

definition is_venv :: "node \<Rightarrow> bool" where
  "is_venv p = (if \<not> is_dir p then False else list_ex (exists_under p) indicators)"

definition is_node_modules :: "node \<Rightarrow> bool" where
  "is_node_modules p = (is_dir p \<and> node_name p = ''node_modules'')"

text \<open>
  The classification is the \<^verbatim>\<open>if is_venv ... elif is_node_modules ...\<close> chain of
  \<^verbatim>\<open>find_cleanable_in_dir\<close>, applied to one entry: the type string the entry is
  listed under, or \<open>None\<close> when it is not listed.
\<close>

definition classify :: "node \<Rightarrow> string option" where
  "classify entry =
     (if \<not> is_dir entry then None
      else if is_venv entry then Some ''venv''
      else if is_node_modules entry then Some ''node_modules''
      else None)"

section \<open>Scanning one directory\<close>

text \<open>
  \<^verbatim>\<open>find_cleanable_in_dir\<close> returns triples (path, type, size). The path of an entry
  of \<open>directory\<close> is given by the entry's name.
\<close>

definition find_cleanable_in_dir :: "node \<Rightarrow> (string \<times> string \<times> nat) list" where
  "find_cleanable_in_dir directory =
     (case iterdir directory of
        None \<Rightarrow> []
      | Some entries \<Rightarrow>
          foldl (\<lambda>results entry.
                   case classify entry of
                     None \<Rightarrow> results
                   | Some type \<Rightarrow> results @ [(node_name entry, type, get_dir_size entry)])
                [] entries)"

text \<open>\<^verbatim>\<open>get_subdirs\<close>: the entries that are directories and not cleanable, sorted by path.\<close>

definition get_subdirs :: "node \<Rightarrow> node list" where
  "get_subdirs directory =
     (case iterdir directory of
        None \<Rightarrow> []
      | Some entries \<Rightarrow>
          sort_key node_name
            (filter (\<lambda>entry. is_dir entry \<and> \<not> is_venv entry \<and> \<not> is_node_modules entry) entries))"

section \<open>Recursive scan\<close>

text \<open>
  \<^verbatim>\<open>scan_dir\<close> is the closure inside \<^verbatim>\<open>scan_recursive\<close>; its \<^verbatim>\<open>nonlocal\<close>
  counters \<open>count\<close> and \<open>total_size\<close> are passed in and returned.
\<close>

fun scan_dir :: "nat \<Rightarrow> node \<Rightarrow> nat \<Rightarrow> nat \<times> nat \<Rightarrow> nat \<times> nat" where
  "scan_dir max_depth (File n sz) depth acc = acc"
| "scan_dir max_depth (Dir n e entries) depth acc =
     (if depth > max_depth then acc
      else fold (\<lambda>entry (count, total_size).
                   if \<not> is_dir entry then (count, total_size)
                   else if is_venv entry \<or> is_node_modules entry
                     then (count + 1, total_size + get_dir_size entry)
                   else scan_dir max_depth entry (depth + 1) (count, total_size))
                entries acc)"

definition scan_recursive :: "node \<Rightarrow> nat \<Rightarrow> nat \<times> nat" where
  "scan_recursive directory max_depth = scan_dir max_depth directory 0 (0, 0)"

text \<open>The body of the \<^verbatim>\<open>for entry in current_path.iterdir()\<close> loop of \<^verbatim>\<open>scan_dir\<close>.\<close>

definition scan_entry :: "nat \<Rightarrow> nat \<Rightarrow> node \<Rightarrow> nat \<times> nat \<Rightarrow> nat \<times> nat" where
  "scan_entry max_depth depth entry acc =
     (case acc of (count, total_size) \<Rightarrow>
        if \<not> is_dir entry then (count, total_size)
        else if is_venv entry \<or> is_node_modules entry
          then (count + 1, total_size + get_dir_size entry)
        else scan_dir max_depth entry (depth + 1) (count, total_size))"

section \<open>What the program prints\<close>

text \<open>
  One constructor for each message of the program, with the values the message shows;
  \<^verbatim>\<open>format_size\<close> is left out and sizes are kept in bytes. \<open>Shown\<close> stands for the
  whole screen printed at the top of the \<^verbatim>\<open>while True\<close> loop: the current directory, its
  cleanable items, the cached recursive scan if there is one, the names of the
  subdirectories and the actions offered.
\<close>

datatype action = Wipe | Clean | Enter nat | Rescan | GoUp | NextFolder | PrevFolder | SkipIt | Quit

datatype event =
    Banner
  | PathMissing path
  | Shown path "(string \<times> string \<times> nat) list" "(nat \<times> nat) option" "string list" "action list"
  | Quitting
  | Scanning
  | ScanFound nat nat
  | ScanNone
  | Wiping string
  | ErrorDeleting path string
  | WipeDeleted path nat
  | FreedTree nat
  | CleanDeleted string
  | Freed nat
  | NoMoreFolders
  | AlreadyAtFirst
  | InvalidNumber nat
  | InvalidChoice
  | Summary nat nat
  | EOFError

text \<open>The dictionary \<^verbatim>\<open>stats\<close>.\<close>

record stats =
  total_freed :: nat
  deleted_count :: nat

section \<open>Deleting\<close>

text \<open>
  \<^verbatim>\<open>shutil.rmtree(path)\<close>: \<open>None\<close> when the directory gets removed, the exception
  otherwise. On something that is not a directory it raises \<^verbatim>\<open>NotADirectoryError\<close>.
\<close>

fun rmtree :: "node \<Rightarrow> string option" where
  "rmtree (File n sz) = Some ''NotADirectoryError''"
| "rmtree (Dir n outcome entries) = outcome"

fun entries_of :: "node \<Rightarrow> node list" where
  "entries_of (File n sz) = []"
| "entries_of (Dir n x entries) = entries"

fun lookup_entry :: "node \<Rightarrow> string \<Rightarrow> node option" where
  "lookup_entry (File n sz) a = None"
| "lookup_entry (Dir n x entries) a = find (\<lambda>c. node_name c = a) entries"

fun remove_entry :: "string \<Rightarrow> node \<Rightarrow> node" where
  "remove_entry a (File n sz) = File n sz"
| "remove_entry a (Dir n x entries) = Dir n x (filter (\<lambda>c. node_name c \<noteq> a) entries)"

fun put_entry :: "node \<Rightarrow> node \<Rightarrow> node" where
  "put_entry c (File n sz) = File n sz"
| "put_entry c (Dir n x entries) =
     Dir n x (map (\<lambda>c'. if node_name c' = node_name c then c else c') entries)"

text \<open>
  \<^verbatim>\<open>delete_directory(path)\<close>, for the entry \<open>name\<close> of the directory \<open>d\<close> found at
  \<open>directory\<close>: the success flag, what was printed, and \<open>d\<close> afterwards.
\<close>

definition delete_directory :: "path \<Rightarrow> string \<Rightarrow> node \<Rightarrow> bool \<times> event list \<times> node" where
  "delete_directory directory name d =
     (case lookup_entry d name of
        None \<Rightarrow> (False, [ErrorDeleting (directory @ [name]) ''FileNotFoundError''], d)
      | Some target \<Rightarrow>
          (case rmtree target of
             None \<Rightarrow> (True, [], remove_entry name d)
           | Some e \<Rightarrow> (False, [ErrorDeleting (directory @ [name]) e], d)))"

section \<open>Deleting a batch\<close>

text \<open>
  The loop \<^verbatim>\<open>for path, type_, size in cleanable: if delete_directory(path): ...\<close>
  stands twice in the program, in \<^verbatim>\<open>wipe_all_cleanable\<close> and in the \<^verbatim>\<open>c\<close> branch of
  \<^verbatim>\<open>navigate_directory\<close>, and differs in the line printed for a deleted entry only,
  here \<open>deleted\<close>. It starts with \<^verbatim>\<open>freed = 0\<close> and yields the bytes freed, the updated
  \<^verbatim>\<open>stats\<close>, what was printed and the directory afterwards.
\<close>

type_synonym wiped = "nat \<times> stats \<times> event list \<times> node"

definition delete_each ::
  "(string \<Rightarrow> nat \<Rightarrow> event) \<Rightarrow> path \<Rightarrow> (string \<times> string \<times> nat) list \<Rightarrow> stats \<Rightarrow> node \<Rightarrow> wiped" where
  "delete_each deleted directory cleanable stats d =
     foldl (\<lambda>(freed, stats, out, d) (path, type, size).
              case delete_directory directory path d of
                (True, msgs, d') \<Rightarrow>
                  (freed + size, stats\<lparr>deleted_count := deleted_count stats + 1\<rparr>,
                   out @ msgs @ [deleted path size], d')
              | (False, msgs, d') \<Rightarrow> (freed, stats, out @ msgs, d'))
           (0, stats, [], d) cleanable"

section \<open>Wipe\<close>

text \<open>
  \<^verbatim>\<open>wipe_all_cleanable(directory, stats)\<close> returns the bytes freed, updates \<^verbatim>\<open>stats\<close>,
  prints and changes the filesystem below \<open>directory\<close>: the four components of the
  result. \<open>wipe_here\<close> is its first loop, over the cleanable entries of the directory
  itself; \<open>wipe_subdir\<close> is the body of the second loop, given what the recursive call
  on the subdirectory returned. A deleted entry is printed as
  \<^verbatim>\<open>path.relative_to(directory.parent)\<close>.
\<close>

definition relative_to_parent :: "path \<Rightarrow> string \<Rightarrow> path" where
  "relative_to_parent directory name = (if directory = [] then [name] else [last directory, name])"

definition wipe_here ::
  "path \<Rightarrow> (string \<times> string \<times> nat) list \<Rightarrow> stats \<Rightarrow> node \<Rightarrow> wiped" where
  "wipe_here directory cleanable stats d =
     delete_each (\<lambda>path size. WipeDeleted (relative_to_parent directory path) size)
       directory cleanable stats d"

fun wipe_subdir :: "wiped \<Rightarrow> wiped \<Rightarrow> wiped" where
  "wipe_subdir (freed, stats, out, d) (f, stats', out', subdir') =
     (freed + f, stats', out @ out', put_entry subdir' d)"

lemma size_entries_of: "c \<in> set (entries_of d) \<Longrightarrow> size c < size d"
proof (cases d)
  case (File n sz)
  assume "c \<in> set (entries_of d)"
  with File show ?thesis by simp
next
  case (Dir n x entries)
  assume "c \<in> set (entries_of d)"
  with Dir have "c \<in> set entries" by simp
  then have "size c \<le> size_list size entries" by (rule size_list_estimation') simp
  with Dir show ?thesis by simp
qed

lemma get_subdirs_entries: "set (get_subdirs d) \<subseteq> set (entries_of d)"
  by (cases d) (auto simp: get_subdirs_def)

lemma delete_directory_entries:
  "delete_directory directory a d = (ok, msgs, d') \<Longrightarrow> set (entries_of d') \<subseteq> set (entries_of d)"
  by (cases d) (auto simp: delete_directory_def split: option.splits)

lemma delete_each_entries:
  "delete_each deleted directory cleanable stats d = (freed, stats', out, d') \<Longrightarrow>
   set (entries_of d') \<subseteq> set (entries_of d)"
proof -
  have "set (entries_of (snd (snd (snd (foldl (\<lambda>(freed, stats, out, d) (path, type, size).
              case delete_directory directory path d of
                (True, msgs, d') \<Rightarrow>
                  (freed + size, stats\<lparr>deleted_count := deleted_count stats + 1\<rparr>,
                   out @ msgs @ [deleted path size], d')
              | (False, msgs, d') \<Rightarrow> (freed, stats, out @ msgs, d'))
           acc cleanable))))) \<subseteq> set (entries_of (snd (snd (snd acc))))" for acc
  proof (induction cleanable arbitrary: acc)
    case Nil
    show ?case by simp
  next
    case (Cons c cs)
    obtain f st out d0 where acc: "acc = (f, st, out, d0)" by (cases acc) auto
    obtain p ty sz where c: "c = (p, ty, sz)" by (cases c) auto
    obtain ok msgs d1 where dd: "delete_directory directory p d0 = (ok, msgs, d1)"
      by (cases "delete_directory directory p d0") auto
    have sub: "set (entries_of d1) \<subseteq> set (entries_of d0)"
      using dd by (rule delete_directory_entries)
    show ?case
      using Cons.IH [of "(f + sz, st\<lparr>deleted_count := deleted_count st + 1\<rparr>,
                          out @ msgs @ [deleted p sz], d1)"]
            Cons.IH [of "(f, st, out @ msgs, d1)"] sub
      by (cases ok) (auto simp: acc c dd)
  qed
  from this [of "(0, stats, [], d)"]
  show "delete_each deleted directory cleanable stats d = (freed, stats', out, d') \<Longrightarrow>
   set (entries_of d') \<subseteq> set (entries_of d)"
    by (simp add: delete_each_def)
qed

lemma wipe_here_smaller:
  assumes "c \<in> set (get_subdirs (snd (snd (snd (wipe_here directory cleanable stats d)))))"
  shows "size c < size d"
proof -
  obtain f st out d1 where w: "wipe_here directory cleanable stats d = (f, st, out, d1)"
    by (cases "wipe_here directory cleanable stats d") auto
  then have "set (entries_of d1) \<subseteq> set (entries_of d)"
    unfolding wipe_here_def by (rule delete_each_entries)
  moreover have "c \<in> set (entries_of d1)"
    using assms w get_subdirs_entries [of d1] by auto
  ultimately have "c \<in> set (entries_of d)" by blast
  then show ?thesis by (rule size_entries_of)
qed

function wipe_all_cleanable :: "path \<Rightarrow> node \<Rightarrow> stats \<Rightarrow> wiped" where
  "wipe_all_cleanable directory d stats =
     (let here = wipe_here directory (find_cleanable_in_dir d) stats d
      in foldl (\<lambda>acc subdir.
                  wipe_subdir acc
                    (wipe_all_cleanable (directory @ [node_name subdir]) subdir (fst (snd acc))))
               here (get_subdirs (snd (snd (snd here)))))"
  by pat_completeness auto
termination
proof (relation "measure (\<lambda>(directory, d, stats). size d)")
  show "wf (measure (\<lambda>(directory, d, stats). size d))" by simp
next
  fix directory :: path and d :: node and stats :: stats and here acc :: wiped and subdir :: node
  assume "here = wipe_here directory (find_cleanable_in_dir d) stats d"
    and "subdir \<in> set (get_subdirs (snd (snd (snd here))))"
  then have "size subdir < size d" by (simp add: wipe_here_smaller)
  then show "((directory @ [node_name subdir], subdir, fst (snd acc)), directory, d, stats)
        \<in> measure (\<lambda>(directory, d, stats). size d)" by simp
qed

declare wipe_all_cleanable.simps [simp del]

section \<open>Clean\<close>

text \<open>The loop of the \<^verbatim>\<open>c\<close> branch of \<^verbatim>\<open>navigate_directory\<close>.\<close>

definition clean_here ::
  "path \<Rightarrow> (string \<times> string \<times> nat) list \<Rightarrow> stats \<Rightarrow> node \<Rightarrow> wiped" where
  "clean_here directory cleanable stats d =
     delete_each (\<lambda>path size. CleanDeleted path) directory cleanable stats d"

section \<open>Paths into the filesystem\<close>

text \<open>
  The session works on the whole filesystem, given by its root directory; a path is
  the list of names leading from the root to a node, and the root itself (the one path
  that is its own parent) is the empty list.
\<close>

fun lookup :: "node \<Rightarrow> path \<Rightarrow> node option" where
  "lookup t [] = Some t"
| "lookup t (a # rest) =
     (case lookup_entry t a of None \<Rightarrow> None | Some c \<Rightarrow> lookup c rest)"

fun replace :: "node \<Rightarrow> path \<Rightarrow> node \<Rightarrow> node" where
  "replace t [] new = new"
| "replace (File n sz) (a # rest) new = File n sz"
| "replace (Dir n x entries) (a # rest) new =
     Dir n x (map (\<lambda>c. if node_name c = a then replace c rest new else c) entries)"

definition parent :: "path \<Rightarrow> path" where
  "parent p = butlast p"

text \<open>The two scans of a directory given by its path; a path that leads nowhere has
  \<^verbatim>\<open>iterdir()\<close> raise \<^verbatim>\<open>FileNotFoundError\<close>, which both functions swallow.\<close>

definition cleanable_at :: "node \<Rightarrow> path \<Rightarrow> (string \<times> string \<times> nat) list" where
  "cleanable_at root directory =
     (case lookup root directory of None \<Rightarrow> [] | Some d \<Rightarrow> find_cleanable_in_dir d)"

definition subdirs_at :: "node \<Rightarrow> path \<Rightarrow> path list" where
  "subdirs_at root directory =
     (case lookup root directory of
        None \<Rightarrow> []
      | Some d \<Rightarrow> map (\<lambda>subdir. directory @ [node_name subdir]) (get_subdirs d))"

section \<open>Reading a choice\<close>

text \<open>
  \<^verbatim>\<open>input("Choice: ").lower().strip()\<close>, on ASCII: the letters \<open>A\<close> to \<open>Z\<close> are
  lowered, and the characters Python counts as white space below 128 are stripped at
  both ends. \<^verbatim>\<open>isdigit()\<close> and \<^verbatim>\<open>int()\<close> are those of ASCII digits.
\<close>

definition lower_char :: "char \<Rightarrow> char" where
  "lower_char c =
     (case map_of (zip ''ABCDEFGHIJKLMNOPQRSTUVWXYZ'' ''abcdefghijklmnopqrstuvwxyz'') c of
        None \<Rightarrow> c
      | Some l \<Rightarrow> l)"

definition is_space :: "char \<Rightarrow> bool" where
  "is_space c = (c \<in> set [CHR 0x09, CHR 0x0A, CHR 0x0B, CHR 0x0C, CHR 0x0D,
                            CHR 0x1C, CHR 0x1D, CHR 0x1E, CHR 0x1F, CHR 0x20])"

definition strip :: "string \<Rightarrow> string" where
  "strip s = rev (dropWhile is_space (rev (dropWhile is_space s)))"

definition read_choice :: "string \<Rightarrow> string" where
  "read_choice line = strip (map lower_char line)"

definition digit_of :: "char \<Rightarrow> nat option" where
  "digit_of c = map_of (zip ''0123456789'' [0, 1, 2, 3, 4, 5, 6, 7, 8, 9]) c"

definition isdigit :: "string \<Rightarrow> bool" where
  "isdigit s = (s \<noteq> [] \<and> list_all (\<lambda>c. digit_of c \<noteq> None) s)"

definition int_of :: "string \<Rightarrow> int" where
  "int_of s = foldl (\<lambda>n c. 10 * n + int (case digit_of c of None \<Rightarrow> 0 | Some k \<Rightarrow> k)) 0 s"

section \<open>The navigation session\<close>

text \<open>
  \<^verbatim>\<open>navigate_directory\<close> calls itself from inside its loops and blocks on
  \<^verbatim>\<open>input()\<close>; it is modelled as a machine that takes one line of input at a time.
  A \<open>frame\<close> holds the arguments and local variables of one activation of
  \<^verbatim>\<open>navigate_directory\<close>; \<open>awaiting_enter\<close> tells that the activation stands at
  \<^verbatim>\<open>input("Press Enter to continue...")\<close> rather than at \<^verbatim>\<open>input("Choice: ")\<close>.
  The session holds the running activation, and its callers with the variables
  \<open>subdirs\<close> and \<open>subdir_idx\<close> of the \<^verbatim>\<open>while subdir_idx < len(subdirs)\<close> loop each
  of them is in; the last caller's return leads back to \<^verbatim>\<open>main\<close>.
\<close>

datatype signal = Skip | Up | Next | Prev

record frame =
  directory :: path
  parent_subdirs :: "path list option"
  current_idx :: "int option"
  has_recursive_items :: "bool option"
  recursive_count :: nat
  recursive_size :: nat
  awaiting_enter :: bool

datatype status = Running | Exited int

record session =
  current :: frame
  callers :: "(frame \<times> path list \<times> int) list"
  root :: node
  stats :: stats
  out :: "event list"
  status :: status
  start_path :: path

definition new_frame :: "path \<Rightarrow> path list option \<Rightarrow> int option \<Rightarrow> frame" where
  "new_frame dir subdirs idx =
     \<lparr>directory = dir, parent_subdirs = subdirs, current_idx = idx,
      has_recursive_items = None, recursive_count = 0, recursive_size = 0,
      awaiting_enter = False\<rparr>"

definition has_next :: "frame \<Rightarrow> bool" where
  "has_next f =
     (case parent_subdirs f of
        None \<Rightarrow> False
      | Some ps \<Rightarrow> ps \<noteq> [] \<and>
          (case current_idx f of None \<Rightarrow> False | Some i \<Rightarrow> i < int (length ps) - 1))"

definition has_prev :: "frame \<Rightarrow> bool" where
  "has_prev f =
     (case parent_subdirs f of
        None \<Rightarrow> False
      | Some ps \<Rightarrow> ps \<noteq> [] \<and>
          (case current_idx f of None \<Rightarrow> False | Some i \<Rightarrow> i > 0))"

definition can_wipe :: "(string \<times> string \<times> nat) list \<Rightarrow> frame \<Rightarrow> bool" where
  "can_wipe cleanable f = (cleanable \<noteq> [] \<or> has_recursive_items f = Some True)"

definition actions :: "session \<Rightarrow> action list" where
  "actions st =
     (let f = current st;
          cleanable = cleanable_at (root st) (directory f);
          subdirs = subdirs_at (root st) (directory f)
      in (if can_wipe cleanable f then [Wipe] else [])
       @ (if cleanable \<noteq> [] then [Clean] else [])
       @ (if subdirs \<noteq> [] then [Enter (length subdirs), Rescan] else [])
       @ (if directory f \<noteq> start_path st then [GoUp] else [])
       @ (if has_next f then [NextFolder] else [])
       @ (if has_prev f then [PrevFolder] else [])
       @ [SkipIt, Quit])"

text \<open>The top of the \<^verbatim>\<open>while True\<close> loop, up to the prompt.\<close>

definition display :: "session \<Rightarrow> session" where
  "display st =
     (let f = current st
      in st\<lparr>out := out st @
           [Shown (directory f) (cleanable_at (root st) (directory f))
              (if has_recursive_items f = Some True
               then Some (recursive_count f, recursive_size f) else None)
              (map last (subdirs_at (root st) (directory f)))
              (actions st)]\<rparr>)"

text \<open>A call \<^verbatim>\<open>navigate_directory(subdirs[subdir_idx], stats, start_path, subdirs, subdir_idx)\<close>
  made by the running activation.\<close>

definition descend :: "path list \<Rightarrow> int \<Rightarrow> session \<Rightarrow> session" where
  "descend subdirs subdir_idx st =
     display (st\<lparr>current := new_frame (subdirs ! nat subdir_idx) (Some subdirs) (Some subdir_idx),
                  callers := (current st, subdirs, subdir_idx) # callers st\<rparr>)"

text \<open>
  What the caller's loop does with the value a call returned: \<open>None\<close> for
  \<^verbatim>\<open>break\<close>, else the new \<open>subdir_idx\<close>, and the notice printed.
\<close>

definition after_child :: "signal \<Rightarrow> int \<Rightarrow> int \<Rightarrow> int option \<times> event list" where
  "after_child result subdir_idx len =
     (case result of
        Up \<Rightarrow> (None, [])
      | Next \<Rightarrow>
          (if subdir_idx + 1 \<ge> len then (Some (len - 1), [NoMoreFolders])
           else (Some (subdir_idx + 1), []))
      | Prev \<Rightarrow>
          (if subdir_idx - 1 < 0 then (Some 0, [AlreadyAtFirst])
           else (Some (subdir_idx - 1), []))
      | Skip \<Rightarrow> (Some (subdir_idx + 1), []))"

text \<open>
  The running activation returns \<open>result\<close>. With no caller left the return is to
  \<^verbatim>\<open>main\<close>, which prints the summary and ends (exit code 0).
\<close>

definition return_to_caller :: "signal \<Rightarrow> session \<Rightarrow> session" where
  "return_to_caller result st =
     (case callers st of
        [] \<Rightarrow>
          st\<lparr>out := out st @ [Summary (deleted_count (stats st)) (total_freed (stats st))],
             status := Exited 0\<rparr>
      | (caller, subdirs, subdir_idx) # rest \<Rightarrow>
          (let back = st\<lparr>current := caller, callers := rest\<rparr>
           in case after_child result subdir_idx (int (length subdirs)) of
                (None, msgs) \<Rightarrow> display (back\<lparr>out := out back @ msgs\<rparr>)
              | (Some idx, msgs) \<Rightarrow>
                  if idx < int (length subdirs)
                  then descend subdirs idx (back\<lparr>out := out back @ msgs\<rparr>)
                  else display (back\<lparr>out := out back @ msgs\<rparr>)))"

text \<open>The branches \<^verbatim>\<open>r\<close>, \<^verbatim>\<open>w\<close> and \<^verbatim>\<open>c\<close>.\<close>

definition do_scan :: "session \<Rightarrow> session" where
  "do_scan st =
     (let f = current st;
          (count, size) = (case lookup (root st) (directory f) of
                             None \<Rightarrow> (0, 0)
                           | Some d \<Rightarrow> scan_recursive d 10)
      in if count > 0
         then st\<lparr>out := out st @ [Scanning, ScanFound count size],
                 current := f\<lparr>has_recursive_items := Some True, recursive_count := count,
                              recursive_size := size, awaiting_enter := True\<rparr>\<rparr>
         else st\<lparr>out := out st @ [Scanning, ScanNone],
                 current := f\<lparr>has_recursive_items := Some False, awaiting_enter := True\<rparr>\<rparr>)"

definition do_wipe :: "session \<Rightarrow> session" where
  "do_wipe st =
     (let f = current st;
          (freed, stats1, msgs, root1) =
            (case lookup (root st) (directory f) of
               None \<Rightarrow> (0, stats st, [], root st)
             | Some d \<Rightarrow>
                 (case wipe_all_cleanable (directory f) d (stats st) of
                    (freed, stats1, msgs, d') \<Rightarrow>
                      (freed, stats1, msgs, replace (root st) (directory f) d')))
      in display (st\<lparr>root := root1,
                      stats := stats1\<lparr>total_freed := total_freed stats1 + freed\<rparr>,
                      out := out st @ [Wiping (if directory f = [] then [] else last (directory f))]
                               @ msgs @ [FreedTree freed],
                      current := f\<lparr>has_recursive_items := None, recursive_count := 0,
                                   recursive_size := 0\<rparr>\<rparr>))"

definition do_clean :: "session \<Rightarrow> session" where
  "do_clean st =
     (let f = current st;
          (freed, stats1, msgs, root1) =
            (case lookup (root st) (directory f) of
               None \<Rightarrow> (0, stats st, [], root st)
             | Some d \<Rightarrow>
                 (case clean_here (directory f) (find_cleanable_in_dir d) (stats st) d of
                    (freed, stats1, msgs, d') \<Rightarrow>
                      (freed, stats1, msgs, replace (root st) (directory f) d')))
      in display (st\<lparr>root := root1,
                      stats := stats1\<lparr>total_freed := total_freed stats1 + freed\<rparr>,
                      out := out st @ msgs @ [Freed freed]\<rparr>))"

text \<open>
  One line of input. At \<^verbatim>\<open>input("Press Enter to continue...")\<close> the line is dropped and
  the loop continues; at \<^verbatim>\<open>input("Choice: ")\<close> it is dispatched by the
  \<^verbatim>\<open>if/elif\<close> chain. A session that has ended reads nothing more.
\<close>

definition step :: "session \<Rightarrow> string \<Rightarrow> session" where
  "step st line =
     (case status st of
        Exited code \<Rightarrow> st
      | Running \<Rightarrow>
          (let f = current st;
               choice = read_choice line;
               cleanable = cleanable_at (root st) (directory f);
               subdirs = subdirs_at (root st) (directory f)
           in if awaiting_enter f then display (st\<lparr>current := f\<lparr>awaiting_enter := False\<rparr>\<rparr>)
              else if choice = ''q'' then st\<lparr>out := out st @ [Quitting], status := Exited 0\<rparr>
              else if choice = ''s'' then return_to_caller Skip st
              else if choice = ''u'' \<and> directory f \<noteq> start_path st then return_to_caller Up st
              else if choice = ''n'' \<and> has_next f then return_to_caller Next st
              else if choice = ''p'' \<and> has_prev f then return_to_caller Prev st
              else if choice = ''r'' \<and> subdirs \<noteq> [] then do_scan st
              else if choice = ''w'' \<and> can_wipe cleanable f then do_wipe st
              else if choice = ''c'' \<and> cleanable \<noteq> [] then do_clean st
              else if isdigit choice \<and> subdirs \<noteq> [] then
                (let idx = int_of choice - 1
                 in if 0 \<le> idx \<and> idx < int (length subdirs) then descend subdirs 0 st
                    else display (st\<lparr>out := out st @ [InvalidNumber (length subdirs)]\<rparr>))
              else display (st\<lparr>out := out st @ [InvalidChoice]\<rparr>)))"

definition run :: "session \<Rightarrow> string list \<Rightarrow> session" where
  "run st lines = foldl step st lines"

section \<open>The entry point\<close>

fun index_of :: "'a list \<Rightarrow> 'a \<Rightarrow> nat option" where
  "index_of [] x = None"
| "index_of (y # ys) x = (if y = x then Some 0 else map_option Suc (index_of ys x))"

text \<open>
  \<^verbatim>\<open>main\<close>, given the filesystem, the resolved \<^verbatim>\<open>search_path\<close> and the lines on
  standard input. When the input ends while the session still waits for a line,
  \<^verbatim>\<open>input()\<close> raises \<^verbatim>\<open>EOFError\<close>, nothing catches it, and the process ends with
  exit code 1.
\<close>

definition siblings :: "node \<Rightarrow> path \<Rightarrow> path list option \<times> int option" where
  "siblings fs search_path =
     (if parent search_path \<noteq> search_path then
        (let subdirs = subdirs_at fs (parent search_path)
         in case index_of subdirs search_path of
              Some i \<Rightarrow> (Some subdirs, Some (int i))
            | None \<Rightarrow> (None, None))
      else (None, None))"

definition start :: "node \<Rightarrow> path \<Rightarrow> session" where
  "start fs search_path =
     (case siblings fs search_path of
        (subdirs, idx) \<Rightarrow>
          display \<lparr>current = new_frame search_path subdirs idx, callers = [],
                   root = fs, stats = \<lparr>total_freed = 0, deleted_count = 0\<rparr>,
                   out = [Banner], status = Running, start_path = search_path\<rparr>)"

definition main :: "node \<Rightarrow> path \<Rightarrow> string list \<Rightarrow> session" where
  "main fs search_path lines =
     (if lookup fs search_path = None
      then \<lparr>current = new_frame search_path None None, callers = [],
            root = fs, stats = \<lparr>total_freed = 0, deleted_count = 0\<rparr>,
            out = [Banner, PathMissing search_path], status = Exited 1,
            start_path = search_path\<rparr>
      else (let st = run (start fs search_path) lines
            in case status st of
                 Running \<Rightarrow> st\<lparr>out := out st @ [EOFError], status := Exited 1\<rparr>
               | Exited code \<Rightarrow> st))"

section \<open>Reference descriptions of the batch and of the wipe\<close>

text \<open>
  The definitions of this section are not part of the program: they describe, by plain
  recursion over the tree, what the loops above come to, and the theorems below show
  that the program agrees with them.

  An entry is \<open>cleanable\<close> when \<^verbatim>\<open>find_cleanable_in_dir\<close> lists it, as the triple
  \<open>listed\<close>; it is \<open>navigable\<close> when \<^verbatim>\<open>get_subdirs\<close> returns it. A cleanable entry
  \<open>goes\<close> when \<^verbatim>\<open>rmtree\<close> succeeds on it; \<open>attempt\<close> is the line a batch prints for
  it. \<open>delete_step\<close> is the body of the loop of \<open>delete_each\<close>.
\<close>

definition cleanable :: "node \<Rightarrow> bool" where
  "cleanable e = (classify e \<noteq> None)"

definition listed :: "node \<Rightarrow> string \<times> string \<times> nat" where
  "listed e = (node_name e, the (classify e), get_dir_size e)"

definition navigable :: "node \<Rightarrow> bool" where
  "navigable e = (is_dir e \<and> \<not> is_venv e \<and> \<not> is_node_modules e)"

definition goes :: "node \<Rightarrow> bool" where
  "goes e = (cleanable e \<and> rmtree e = None)"

definition attempt :: "(string \<Rightarrow> nat \<Rightarrow> event) \<Rightarrow> path \<Rightarrow> node \<Rightarrow> event" where
  "attempt deleted dir e =
     (case rmtree e of
        None \<Rightarrow> deleted (node_name e) (get_dir_size e)
      | Some err \<Rightarrow> ErrorDeleting (dir @ [node_name e]) err)"

definition delete_step ::
  "(string \<Rightarrow> nat \<Rightarrow> event) \<Rightarrow> path \<Rightarrow> wiped \<Rightarrow> string \<times> string \<times> nat \<Rightarrow> wiped" where
  "delete_step deleted dir =
     (\<lambda>(freed, stats, out, d) (path, type, size).
              case delete_directory dir path d of
                (True, msgs, d') \<Rightarrow>
                  (freed + size, stats\<lparr>deleted_count := deleted_count stats + 1\<rparr>,
                   out @ msgs @ [deleted path size], d')
              | (False, msgs, d') \<Rightarrow> (freed, stats, out @ msgs, d'))"

text \<open>Names are unique within each directory, as on any filesystem.\<close>

fun wf_node :: "node \<Rightarrow> bool" where
  "wf_node (File n sz) = True"
| "wf_node (Dir n x es) = (distinct (map node_name es) \<and> list_all wf_node es)"

text \<open>
  What a wipe leaves of a directory (\<open>wipe_tree\<close>), the cleanable entries it tries to
  delete, in order (\<open>reached\<close>), and what it prints (\<open>wipe_out\<close>).
\<close>

fun wipe_tree :: "node \<Rightarrow> node" where
  "wipe_tree (File n sz) = File n sz"
| "wipe_tree (Dir n x es) =
     Dir n x (map (\<lambda>e. if navigable e then wipe_tree e else e) (filter (\<lambda>e. \<not> goes e) es))"

fun reached :: "node \<Rightarrow> node list" where
  "reached (File n sz) = []"
| "reached (Dir n x es) =
     filter cleanable es @ concat (map reached (sort_key node_name (filter navigable es)))"

fun wipe_out :: "path \<Rightarrow> node \<Rightarrow> event list" where
  "wipe_out dir (File n sz) = []"
| "wipe_out dir (Dir n x es) =
     map (attempt (\<lambda>path size. WipeDeleted (relative_to_parent dir path) size) dir) (filter cleanable es)
     @ concat (map (\<lambda>s. wipe_out (dir @ [node_name s]) s) (sort_key node_name (filter navigable es)))"

definition wipe_freed :: "node \<Rightarrow> nat" where
  "wipe_freed d = sum_list (map get_dir_size (filter (\<lambda>e. rmtree e = None) (reached d)))"

definition wipe_count :: "node \<Rightarrow> nat" where
  "wipe_count d = length (filter (\<lambda>e. rmtree e = None) (reached d))"

definition wiped_ok :: "node \<Rightarrow> bool" where
  "wiped_ok s = (\<forall>dir st. wipe_all_cleanable dir s st =
      (wipe_freed s, st\<lparr>deleted_count := deleted_count st + wipe_count s\<rparr>, wipe_out dir s, wipe_tree s))"

text \<open>
  Every cleanable entry at or below a directory, found as the wipe finds them: those of
  the directory itself, then those below each of its subdirectories, to any depth.
\<close>

function cleanable_below :: "node \<Rightarrow> (string \<times> string \<times> nat) list" where
  "cleanable_below d = find_cleanable_in_dir d @ concat (map cleanable_below (get_subdirs d))"
  by pat_completeness auto
termination
proof (relation "measure size")
  show "wf (measure size)" by simp
next
  fix d x :: node
  assume "x \<in> set (get_subdirs d)"
  then have "x \<in> set (entries_of d)" using get_subdirs_entries by blast
  then have "size x < size d" by (rule size_entries_of)
  then show "(x, d) \<in> measure size" by simp
qed

declare cleanable_below.simps [simp del]

text \<open>No directory below can fail to be removed.\<close>

fun removable :: "node \<Rightarrow> bool" where
  "removable (File n sz) = True"
| "removable (Dir n x es) = (x = None \<and> list_all removable es)"

text \<open>
  A project with two cleanable entries of 100 and 200 bytes and, eleven directories
  down from its one subdirectory, a virtual environment of 50 bytes; and the session
  started on it.
\<close>

definition deep_sub :: node where
  "deep_sub =
     Dir ''sub'' None [Dir ''l2'' None [Dir ''l3'' None [Dir ''l4'' None [Dir ''l5'' None
       [Dir ''l6'' None [Dir ''l7'' None [Dir ''l8'' None [Dir ''l9'' None [Dir ''l10'' None
         [Dir ''l11'' None [Dir ''venv'' None [Dir ''bin'' None [File ''activate'' 50]]]]]]]]]]]]]"

definition deep_project :: node where
  "deep_project =
     Dir ''proj'' None
       [Dir ''env'' None [File ''pyvenv.cfg'' 100],
        Dir ''node_modules'' None [File ''index.js'' 200],
        File ''main.py'' 7,
        deep_sub]"

definition deep_session :: session where
  "deep_session = start (Dir [] None [Dir ''home'' None [deep_project]]) [''home'', ''proj'']"

text \<open>A project one of whose cleanable entries cannot be removed.\<close>

definition failing_entry :: node where
  "failing_entry = Dir ''node_modules'' (Some ''PermissionError'') [File ''index.js'' 200]"

definition failing_project :: node where
  "failing_project =
     Dir ''proj'' None
       ([Dir ''env'' None [File ''pyvenv.cfg'' 100]] @ failing_entry #
        [Dir ''old'' None [File ''pyvenv.cfg'' 30],
         Dir ''sub'' None [Dir ''venv'' None [File ''pyvenv.cfg'' 50]]])"

text \<open>
  Two properties of a session, for the theorems on the walk: no summary has been
  printed (\<open>quiet\<close>), and every activation of \<^verbatim>\<open>navigate_directory\<close>, running or
  waiting for a call to return, has its index inside its list of siblings
  (\<open>in_range\<close>).
\<close>

fun is_summary :: "event \<Rightarrow> bool" where
  "is_summary (Summary c f) = True"
| "is_summary ev = False"

definition quiet :: "event list \<Rightarrow> bool" where
  "quiet evs = (\<forall>ev \<in> set evs. \<not> is_summary ev)"

definition frame_in_range :: "frame \<Rightarrow> bool" where
  "frame_in_range f =
     (case parent_subdirs f of
        None \<Rightarrow> True
      | Some ps \<Rightarrow> (case current_idx f of None \<Rightarrow> False | Some i \<Rightarrow> 0 \<le> i \<and> i < int (length ps)))"

definition in_range :: "session \<Rightarrow> bool" where
  "in_range st =
     (frame_in_range (current st) \<and>
      list_all (\<lambda>(caller, subdirs, idx). frame_in_range caller \<and> 0 \<le> idx \<and> idx < int (length subdirs))
        (callers st))"

text \<open>A home directory with three subdirectories, listed out of order, and a cleanable entry.\<close>

definition three_siblings :: node where
  "three_siblings =
     Dir [] None [Dir ''home'' None
       [Dir ''beta'' None [], Dir ''alpha'' None [File ''a.txt'' 1],
        Dir ''node_modules'' None [File ''index.js'' 9], Dir ''gamma'' None []]]"


section \<open>Properties of the detector\<close>

lemma is_venv_is_dir: "is_venv p \<Longrightarrow> is_dir p"
  by (cases p) (simp_all add: is_venv_def)

lemma is_venv_rename: "is_venv (Dir n e cs) = is_venv (Dir n' e' cs)"
  by (simp add: is_venv_def indicators_def)

text \<open>
  C4. For every path \<open>D\<close>, the classification is \<^verbatim>\<open>'venv'\<close> if and only if \<open>D\<close> is a
  directory and at least one of \<^verbatim>\<open>pyvenv.cfg\<close>, \<^verbatim>\<open>bin/activate\<close>,
  \<^verbatim>\<open>Scripts/activate.bat\<close> exists under it; nothing else about \<open>D\<close> (its name, its other
  entries) enters.
\<close>

theorem classify_venv_iff:
  "(classify D = Some ''venv'') =
     (is_dir D \<and> (exists_under D [''pyvenv.cfg''] \<or> exists_under D [''bin'', ''activate'']
      \<or> exists_under D [''Scripts'', ''activate.bat'']))"
  by (cases D) (auto simp: classify_def is_venv_def indicators_def)

text \<open>
  C3 as stated fails: a directory named \<^verbatim>\<open>node_modules\<close> that holds a venv marker is
  listed as \<^verbatim>\<open>'venv'\<close>, since \<^verbatim>\<open>is_venv\<close> is asked first, and it stays a venv under
  any other name.
\<close>

theorem node_modules_with_marker_counterexample:
  "is_dir (Dir ''node_modules'' None [File ''pyvenv.cfg'' 0])
   \<and> node_name (Dir ''node_modules'' None [File ''pyvenv.cfg'' 0]) = ''node_modules''
   \<and> is_node_modules (Dir ''node_modules'' None [File ''pyvenv.cfg'' 0])
   \<and> classify (Dir ''node_modules'' None [File ''pyvenv.cfg'' 0]) = Some ''venv''
   \<and> classify (Dir ''node_modules'' None [File ''pyvenv.cfg'' 0]) \<noteq> Some ''node_modules''
   \<and> classify (Dir ''renamed'' None [File ''pyvenv.cfg'' 0]) \<noteq> None"
  by (simp add: classify_def is_venv_def is_node_modules_def indicators_def)

text \<open>
  C3, amended. \<^verbatim>\<open>is_node_modules\<close> holds of a directory exactly when its name is
  \<^verbatim>\<open>node_modules\<close>, and a directory of any other name is never classified
  \<^verbatim>\<open>'node_modules'\<close>. When the directory holds none of the venv markers, it is
  classified \<^verbatim>\<open>'node_modules'\<close> under the name \<^verbatim>\<open>node_modules\<close> and not classified
  at all under any other name, its contents unchanged.
\<close>

theorem classify_node_modules:
  "is_node_modules (Dir n e entries) = (n = ''node_modules'')
   \<and> (n \<noteq> ''node_modules'' \<longrightarrow> classify (Dir n e entries) \<noteq> Some ''node_modules'')
   \<and> (\<not> is_venv (Dir n e entries) \<longrightarrow>
        classify (Dir ''node_modules'' e entries) = Some ''node_modules''
        \<and> (n \<noteq> ''node_modules'' \<longrightarrow> classify (Dir n e entries) = None))"
proof -
  have "is_venv (Dir ''node_modules'' e entries) = is_venv (Dir n e entries)"
    by (rule is_venv_rename)
  then show ?thesis by (simp add: classify_def is_node_modules_def)
qed

theorem classify_node_modules_witness:
  "is_node_modules (Dir ''node_modules'' None [Dir ''left-pad'' None [File ''index.js'' 120]])
   \<and> \<not> is_node_modules (Dir ''deps'' None [Dir ''left-pad'' None [File ''index.js'' 120]])
   \<and> \<not> is_venv (Dir ''deps'' None [Dir ''left-pad'' None [File ''index.js'' 120]])
   \<and> classify (Dir ''node_modules'' None [Dir ''left-pad'' None [File ''index.js'' 120]])
       = Some ''node_modules''
   \<and> classify (Dir ''deps'' None [Dir ''left-pad'' None [File ''index.js'' 120]]) = None"
proof -
  have h: "\<not> is_venv (Dir ''deps'' None [Dir ''left-pad'' None [File ''index.js'' 120]])"
    by (simp add: is_venv_def indicators_def)
  show ?thesis
    using h classify_node_modules [of "''deps''" None "[Dir ''left-pad'' None [File ''index.js'' 120]]"]
      classify_node_modules [of "''node_modules''" None "[Dir ''left-pad'' None [File ''index.js'' 120]]"]
    by simp
qed

section \<open>Properties of the recursive scan\<close>

text \<open>The counters only ever grow by what a directory contributes.\<close>

lemma fold_shift:
  fixes f :: "'a \<Rightarrow> nat \<times> nat \<Rightarrow> nat \<times> nat"
  assumes "\<And>x c t. x \<in> set xs \<Longrightarrow> f x (c, t) = (c + fst (f x (0, 0)), t + snd (f x (0, 0)))"
  shows "fold f xs (c, t) = (c + fst (fold f xs (0, 0)), t + snd (fold f xs (0, 0)))"
  using assms
proof (induction xs arbitrary: c t)
  case Nil
  show ?case by simp
next
  case (Cons x xs)
  obtain a b where ab: "f x (0, 0) = (a, b)" by (cases "f x (0, 0)")
  obtain p q where pq: "fold f xs (0, 0) = (p, q)" by (cases "fold f xs (0, 0)")
  have "f x (c', t') = (c' + fst (f x (0, 0)), t' + snd (f x (0, 0)))" for c' t'
    by (rule Cons.prems) simp
  then have hx: "f x (c', t') = (c' + a, t' + b)" for c' t'
    by (simp only: ab fst_conv snd_conv)
  have "fold f xs (c', t') = (c' + fst (fold f xs (0, 0)), t' + snd (fold f xs (0, 0)))" for c' t'
    by (rule Cons.IH, rule Cons.prems) simp
  then have ih: "fold f xs (c', t') = (c' + p, t' + q)" for c' t'
    by (simp only: pq fst_conv snd_conv)
  have "fold f (x # xs) (c, t) = (c + a + p, t + b + q)"
    by (simp add: hx ih)
  moreover have "fold f (x # xs) (0, 0) = (a + p, b + q)"
    by (simp add: ab ih)
  ultimately show ?case by (simp add: add.assoc)
qed

lemma scan_dir_Dir:
  "scan_dir m (Dir n e entries) depth acc =
     (if depth > m then acc else fold (scan_entry m depth) entries acc)"
proof -
  have "scan_entry m depth = (\<lambda>entry (count, total_size).
                   if \<not> is_dir entry then (count, total_size)
                   else if is_venv entry \<or> is_node_modules entry
                     then (count + 1, total_size + get_dir_size entry)
                   else scan_dir m entry (depth + 1) (count, total_size))"
    by (rule ext, rule ext) (simp add: scan_entry_def)
  then show ?thesis by simp
qed

lemma scan_dir_shift:
  "scan_dir m d depth (c, t) =
     (c + fst (scan_dir m d depth (0, 0)), t + snd (scan_dir m d depth (0, 0)))"
proof (induction d arbitrary: depth c t)
  case (File n sz)
  show ?case by simp
next
  case (Dir n e entries)
  show ?case
  proof (cases "depth > m")
    case True
    then show ?thesis by simp
  next
    case False
    have step: "scan_entry m depth x (c', t') =
                (c' + fst (scan_entry m depth x (0, 0)), t' + snd (scan_entry m depth x (0, 0)))"
      if "x \<in> set entries" for x c' t'
    proof (cases "is_dir x \<and> \<not> (is_venv x \<or> is_node_modules x)")
      case True
      have "scan_dir m x (depth + 1) (c', t') =
            (c' + fst (scan_dir m x (depth + 1) (0, 0)), t' + snd (scan_dir m x (depth + 1) (0, 0)))"
        by (rule Dir.IH) (rule that)
      with True show ?thesis by (simp only: scan_entry_def split_conv if_False if_True simp_thms)
    next
      case False
      then show ?thesis by (auto simp: scan_entry_def)
    qed
    have "fold (scan_entry m depth) entries (c, t) =
          (c + fst (fold (scan_entry m depth) entries (0, 0)),
           t + snd (fold (scan_entry m depth) entries (0, 0)))"
      by (rule fold_shift) (rule step)
    with False show ?thesis by (simp only: scan_dir_Dir if_False)
  qed
qed

lemma scan_entry_cleanable:
  "is_venv e \<or> is_node_modules e \<Longrightarrow>
   scan_entry m depth e (c, t) = (c + 1, t + get_dir_size e)"
  by (cases e) (auto simp: scan_entry_def is_venv_def is_node_modules_def)

lemma fold_scan_entry_shift:
  "fold (scan_entry m depth) xs (c, t) =
     (c + fst (fold (scan_entry m depth) xs (0, 0)), t + snd (fold (scan_entry m depth) xs (0, 0)))"
proof (rule fold_shift)
  fix x c' t'
  show "scan_entry m depth x (c', t') =
        (c' + fst (scan_entry m depth x (0, 0)), t' + snd (scan_entry m depth x (0, 0)))"
  proof (cases "is_dir x \<and> \<not> (is_venv x \<or> is_node_modules x)")
    case True
    have "scan_dir m x (depth + 1) (c', t') =
            (c' + fst (scan_dir m x (depth + 1) (0, 0)), t' + snd (scan_dir m x (depth + 1) (0, 0)))"
      by (rule scan_dir_shift)
    with True show ?thesis by (simp only: scan_entry_def split_conv if_False if_True simp_thms)
  next
    case False
    then show ?thesis by (auto simp: scan_entry_def)
  qed
qed

lemma fold_scan_insert:
  assumes "is_venv e \<or> is_node_modules e"
  shows "fold (scan_entry m depth) (pre @ e # post) acc =
         (fst (fold (scan_entry m depth) (pre @ post) acc) + 1,
          snd (fold (scan_entry m depth) (pre @ post) acc) + get_dir_size e)"
proof -
  obtain c t where ct: "fold (scan_entry m depth) pre acc = (c, t)"
    by (cases "fold (scan_entry m depth) pre acc")
  obtain p q where pq: "fold (scan_entry m depth) post (0, 0) = (p, q)"
    by (cases "fold (scan_entry m depth) post (0, 0)")
  have sh: "fold (scan_entry m depth) post (c', t') = (c' + p, t' + q)" for c' t'
    using fold_scan_entry_shift [of m depth post c' t'] by (simp only: pq fst_conv snd_conv)
  have "fold (scan_entry m depth) (pre @ e # post) acc = (c + 1 + p, t + get_dir_size e + q)"
    by (simp add: ct scan_entry_cleanable [OF assms] sh)
  moreover have "fold (scan_entry m depth) (pre @ post) acc = (c + p, t + q)"
    by (simp add: ct sh)
  ultimately show ?thesis by simp
qed

text \<open>
  C2. Wherever the scan meets a cleanable directory \<open>e\<close> (among the entries of any
  directory it visits, at any depth within the cap), \<open>e\<close> adds exactly one to the count
  and its own size to the total, whatever \<open>e\<close> holds: the result is that of the same
  tree without \<open>e\<close>, plus \<open>(1, get_dir_size e)\<close>. So a cleanable directory nested inside
  \<open>e\<close> is never counted and never added a second time; a directory holding only \<open>e\<close>
  scans to \<open>(1, get_dir_size e)\<close>.
\<close>

theorem scan_skips_cleanable:
  assumes "is_venv e \<or> is_node_modules e" and "depth \<le> m"
  shows "scan_dir m (Dir n x (pre @ e # post)) depth acc =
           (fst (scan_dir m (Dir n x (pre @ post)) depth acc) + 1,
            snd (scan_dir m (Dir n x (pre @ post)) depth acc) + get_dir_size e)
         \<and> scan_recursive (Dir n x [e]) m = (1, get_dir_size e)"
proof -
  have nd: "\<not> depth > m" "\<not> 0 > m" using assms(2) by simp_all
  have a: "scan_dir m (Dir n x (pre @ e # post)) depth acc =
           (fst (scan_dir m (Dir n x (pre @ post)) depth acc) + 1,
            snd (scan_dir m (Dir n x (pre @ post)) depth acc) + get_dir_size e)"
    using nd(1) by (simp only: scan_dir_Dir if_False) (rule fold_scan_insert [OF assms(1)])
  have b: "scan_recursive (Dir n x [e]) m = (1, get_dir_size e)"
    unfolding scan_recursive_def scan_dir_Dir
    using scan_entry_cleanable [OF assms(1), of m 0 0 0] by simp
  show ?thesis using a b by (rule conjI)
qed

theorem scan_skips_cleanable_witness:
  "is_node_modules (Dir ''node_modules'' None
       [Dir ''pkg'' None [Dir ''node_modules'' None [File ''a.js'' 7]], File ''b.js'' 5])
   \<and> scan_recursive (Dir ''proj'' None
       [File ''README'' 3,
        Dir ''node_modules'' None
          [Dir ''pkg'' None [Dir ''node_modules'' None [File ''a.js'' 7]], File ''b.js'' 5],
        Dir ''src'' None [Dir ''env'' None [File ''pyvenv.cfg'' 2]]]) 10 = (2, 14)"
proof -
  have h: "is_venv (Dir ''node_modules'' None
       [Dir ''pkg'' None [Dir ''node_modules'' None [File ''a.js'' 7]], File ''b.js'' 5])
     \<or> is_node_modules (Dir ''node_modules'' None
       [Dir ''pkg'' None [Dir ''node_modules'' None [File ''a.js'' 7]], File ''b.js'' 5])"
    by (simp add: is_node_modules_def)
  have r: "scan_dir 10 (Dir ''proj'' None
       ([File ''README'' 3] @ [Dir ''src'' None [Dir ''env'' None [File ''pyvenv.cfg'' 2]]])) 0 (0, 0) = (1, 2)"
    by (simp add: is_venv_def is_node_modules_def indicators_def)
  show ?thesis
    using scan_skips_cleanable [OF h, of 0 10 "''proj''" None "[File ''README'' 3]"
        "[Dir ''src'' None [Dir ''env'' None [File ''pyvenv.cfg'' 2]]]" "(0, 0)"] r
    by (simp add: scan_recursive_def is_node_modules_def)
qed

lemma classify_None_scan_entry:
  assumes "classify e = None"
  shows "scan_entry 0 0 e acc = acc"
proof (cases e)
  case (File n sz)
  then show ?thesis by (cases acc) (simp add: scan_entry_def)
next
  case (Dir n x cs)
  have "\<not> is_venv e" "\<not> is_node_modules e"
    using assms Dir by (auto simp: classify_def split: if_splits)
  moreover have "scan_dir 0 e (Suc 0) (c, t) = (c, t)" for c t
    using Dir by simp
  ultimately show ?thesis using Dir by (cases acc) (simp add: scan_entry_def)
qed

lemma find_cleanable_foldl_length:
  "length (foldl (\<lambda>results entry.
                   case classify entry of
                     None \<Rightarrow> results
                   | Some type \<Rightarrow> results @ [(node_name entry, type, get_dir_size entry)])
                rs entries) = length rs + length (filter (\<lambda>e. classify e \<noteq> None) entries)"
  by (induction entries arbitrary: rs) (auto split: option.splits)

lemma find_cleanable_Nil_iff:
  "find_cleanable_in_dir (Dir n x entries) = [] \<longleftrightarrow> (\<forall>e \<in> set entries. classify e = None)"
proof -
  have "find_cleanable_in_dir (Dir n x entries) = [] \<longleftrightarrow>
        length (find_cleanable_in_dir (Dir n x entries)) = 0" by simp
  also have "\<dots> \<longleftrightarrow> filter (\<lambda>e. classify e \<noteq> None) entries = []"
    unfolding find_cleanable_in_dir_def by (simp add: find_cleanable_foldl_length)
  also have "\<dots> \<longleftrightarrow> (\<forall>e \<in> set entries. classify e = None)"
    by (simp add: filter_empty_conv)
  finally show ?thesis .
qed

text \<open>
  C8. With \<^verbatim>\<open>max_depth = 0\<close> the scan looks at the entries of the starting directory
  only (the inspection done at depth 0) and every descent returns at once. When none of
  these entries is cleanable, that is when \<^verbatim>\<open>find_cleanable_in_dir\<close> finds nothing in
  the starting directory, the result is \<open>(0, 0)\<close>, however deep the tree is and whatever
  lies further down.
\<close>

theorem scan_depth_zero:
  assumes "find_cleanable_in_dir d = []"
  shows "scan_recursive d 0 = (0, 0)"
proof (cases d)
  case (File n sz)
  then show ?thesis by (simp add: scan_recursive_def)
next
  case (Dir n x entries)
  have none: "\<forall>e \<in> set entries. classify e = None"
    using assms Dir by (simp add: find_cleanable_Nil_iff)
  have "fold (scan_entry 0 0) es acc = acc" if "\<forall>e \<in> set es. classify e = None" for es acc
    using that by (induction es arbitrary: acc) (simp_all add: classify_None_scan_entry)
  with none Dir show ?thesis by (simp only: scan_recursive_def scan_dir_Dir) simp
qed

theorem scan_depth_zero_witness:
  "find_cleanable_in_dir (Dir ''root'' None
      [Dir ''a'' None [Dir ''b'' None [Dir ''node_modules'' None [File ''x'' 4]],
                       Dir ''env'' None [File ''pyvenv.cfg'' 1]],
       File ''notes.txt'' 9]) = []
   \<and> scan_recursive (Dir ''root'' None
      [Dir ''a'' None [Dir ''b'' None [Dir ''node_modules'' None [File ''x'' 4]],
                       Dir ''env'' None [File ''pyvenv.cfg'' 1]],
       File ''notes.txt'' 9]) 0 = (0, 0)
   \<and> scan_recursive (Dir ''root'' None
      [Dir ''a'' None [Dir ''b'' None [Dir ''node_modules'' None [File ''x'' 4]],
                       Dir ''env'' None [File ''pyvenv.cfg'' 1]],
       File ''notes.txt'' 9]) 1 = (1, 1)"
proof -
  have h: "find_cleanable_in_dir (Dir ''root'' None
      [Dir ''a'' None [Dir ''b'' None [Dir ''node_modules'' None [File ''x'' 4]],
                       Dir ''env'' None [File ''pyvenv.cfg'' 1]],
       File ''notes.txt'' 9]) = []"
    by (simp add: find_cleanable_in_dir_def classify_def is_venv_def is_node_modules_def indicators_def)
  have d1: "scan_recursive (Dir ''root'' None
      [Dir ''a'' None [Dir ''b'' None [Dir ''node_modules'' None [File ''x'' 4]],
                       Dir ''env'' None [File ''pyvenv.cfg'' 1]],
       File ''notes.txt'' 9]) 1 = (1, 1)"
    by (simp add: scan_recursive_def is_venv_def is_node_modules_def indicators_def)
  show ?thesis using h scan_depth_zero [OF h] d1 by simp
qed

section \<open>The batch loop\<close>

lemma find_cleanable_foldl:
  "foldl (\<lambda>results entry.
            case classify entry of
              None \<Rightarrow> results
            | Some type \<Rightarrow> results @ [(node_name entry, type, get_dir_size entry)])
         rs es = rs @ map listed (filter cleanable es)"
  by (induction es arbitrary: rs) (auto simp: cleanable_def listed_def split: option.splits)

lemma find_cleanable_Dir:
  "find_cleanable_in_dir (Dir n x es) = map listed (filter cleanable es)"
  by (simp add: find_cleanable_in_dir_def find_cleanable_foldl)

lemma find_app:
  "find P (xs @ ys) = (case find P xs of None \<Rightarrow> find P ys | Some x \<Rightarrow> Some x)"
  by (induction xs) simp_all

lemma find_SomeD: "find P xs = Some x \<Longrightarrow> x \<in> set xs \<and> P x"
  by (induction xs) (auto split: if_splits)

lemma find_unique:
  assumes "distinct (map node_name (pre @ e # suf))"
  shows "find (\<lambda>c. node_name c = node_name e) (pre @ e # suf) = Some e"
proof -
  have "node_name e \<notin> node_name ` set pre" using assms by simp
  then have "\<forall>c \<in> set pre. node_name c \<noteq> node_name e" by (metis imageI)
  then have "find (\<lambda>c. node_name c = node_name e) pre = None"
    by (simp add: find_None_iff)
  then show ?thesis by (simp add: find_app)
qed

lemma filter_unique:
  assumes "distinct (map node_name (pre @ e # suf))"
  shows "filter (\<lambda>c. node_name c \<noteq> node_name e) (pre @ e # suf) = pre @ suf"
proof -
  have "node_name e \<notin> node_name ` set pre" "node_name e \<notin> node_name ` set suf"
    using assms by simp_all
  then have "\<forall>c \<in> set pre. node_name c \<noteq> node_name e" "\<forall>c \<in> set suf. node_name c \<noteq> node_name e"
    by (metis imageI)+
  then show ?thesis by (simp add: filter_id_conv)
qed

lemma find_by_name:
  assumes "distinct (map node_name es)" "c \<in> set es"
  shows "find (\<lambda>c'. node_name c' = node_name c) es = Some c"
proof -
  from assms(2) obtain pre suf where "es = pre @ c # suf" by (auto simp: in_set_conv_decomp)
  with assms(1) show ?thesis using find_unique by simp
qed

lemma delete_directory_goes:
  assumes "distinct (map node_name (pre @ e # suf))" and "rmtree e = None"
  shows "delete_directory dir (node_name e) (Dir n x (pre @ e # suf)) = (True, [], Dir n x (pre @ suf))"
  using find_unique [OF assms(1)] filter_unique [OF assms(1)] assms(2)
  by (simp add: delete_directory_def)

lemma delete_directory_fails:
  assumes "distinct (map node_name (pre @ e # suf))" and "rmtree e = Some err"
  shows "delete_directory dir (node_name e) (Dir n x (pre @ e # suf)) =
         (False, [ErrorDeleting (dir @ [node_name e]) err], Dir n x (pre @ e # suf))"
  using find_unique [OF assms(1)] assms(2)
  by (simp add: delete_directory_def)

text \<open>
  The loop over the cleanable entries of a directory: it frees the sizes of the entries
  that go, counts them, prints one line for each entry it tried, and leaves the others.
\<close>

lemma delete_loop:
  assumes "distinct (map node_name (pre @ suf))"
  shows "foldl (delete_step deleted dir) (f0, st0, out0, Dir n x (pre @ suf))
           (map listed (filter cleanable suf)) =
         (f0 + sum_list (map get_dir_size (filter goes suf)),
          st0\<lparr>deleted_count := deleted_count st0 + length (filter goes suf)\<rparr>,
          out0 @ map (attempt deleted dir) (filter cleanable suf),
          Dir n x (pre @ filter (\<lambda>e. \<not> goes e) suf))"
  using assms
proof (induction suf arbitrary: f0 st0 out0 pre)
  case Nil
  show ?case by simp
next
  case (Cons e suf)
  have d': "distinct (map node_name ((pre @ [e]) @ suf))" using Cons.prems by simp
  show ?case
  proof (cases "cleanable e")
    case False
    then have ng: "\<not> goes e" by (simp add: goes_def)
    show ?thesis using Cons.IH [OF d', of f0 st0 out0] False ng by simp
  next
    case True
    show ?thesis
    proof (cases "rmtree e")
      case None
      then have g: "goes e" using True by (simp add: goes_def)
      have d2: "distinct (map node_name (pre @ suf))" using Cons.prems by simp
      have st: "delete_step deleted dir (f0, st0, out0, Dir n x (pre @ e # suf)) (listed e) =
            (f0 + get_dir_size e, st0\<lparr>deleted_count := deleted_count st0 + 1\<rparr>,
             out0 @ [deleted (node_name e) (get_dir_size e)], Dir n x (pre @ suf))"
        by (simp add: delete_step_def listed_def delete_directory_goes [OF Cons.prems None])
      show ?thesis
        using Cons.IH [OF d2, of "f0 + get_dir_size e" "st0\<lparr>deleted_count := deleted_count st0 + 1\<rparr>"
            "out0 @ [deleted (node_name e) (get_dir_size e)]"] True g None
        by (simp add: st attempt_def add.assoc)
    next
      case (Some err)
      then have ng: "\<not> goes e" by (simp add: goes_def)
      have st: "delete_step deleted dir (f0, st0, out0, Dir n x (pre @ e # suf)) (listed e) =
            (f0, st0, out0 @ [ErrorDeleting (dir @ [node_name e]) err], Dir n x (pre @ e # suf))"
        by (simp add: delete_step_def listed_def delete_directory_fails [OF Cons.prems Some])
      show ?thesis
        using Cons.IH [OF d', of f0 st0 "out0 @ [ErrorDeleting (dir @ [node_name e]) err]"] True ng Some
        by (simp add: st attempt_def)
    qed
  qed
qed

lemma delete_each_Dir:
  assumes "distinct (map node_name es)"
  shows "delete_each deleted dir (find_cleanable_in_dir (Dir n x es)) st (Dir n x es) =
         (sum_list (map get_dir_size (filter goes es)),
          st\<lparr>deleted_count := deleted_count st + length (filter goes es)\<rparr>,
          map (attempt deleted dir) (filter cleanable es),
          Dir n x (filter (\<lambda>e. \<not> goes e) es))"
proof -
  have "delete_each deleted dir cl st d = foldl (delete_step deleted dir) (0, st, [], d) cl" for cl d
    by (simp add: delete_each_def delete_step_def)
  then show ?thesis
    using delete_loop [of "[]" es deleted dir 0 st "[]" n x] assms
    by (simp add: find_cleanable_Dir)
qed

section \<open>The wipe agrees with its description\<close>

lemma get_subdirs_Dir:
  "get_subdirs (Dir n x es) = sort_key node_name (filter navigable es)"
proof -
  have "navigable = (\<lambda>entry. is_dir entry \<and> \<not> is_venv entry \<and> \<not> is_node_modules entry)"
    by (rule ext) (simp add: navigable_def)
  then show ?thesis by (simp add: get_subdirs_def)
qed

lemma navigable_not_cleanable: "navigable e \<Longrightarrow> \<not> cleanable e"
  by (simp add: navigable_def cleanable_def classify_def)

lemma cleanable_not_navigable: "cleanable e \<Longrightarrow> \<not> navigable e"
  using navigable_not_cleanable by blast

lemma navigable_not_goes: "navigable e \<Longrightarrow> \<not> goes e"
  by (simp add: goes_def navigable_not_cleanable)

lemma cleanable_is_dir: "cleanable e \<Longrightarrow> is_dir e"
  by (simp add: cleanable_def classify_def split: if_splits)

lemma filter_navigable_kept:
  "filter navigable (filter (\<lambda>e. \<not> goes e) es) = filter navigable es"
  by (induction es) (auto simp: navigable_not_goes)

lemma node_name_wipe_tree: "node_name (wipe_tree d) = node_name d"
  by (cases d) simp_all

lemma is_dir_wipe_tree: "is_dir (wipe_tree d) = is_dir d"
  by (cases d) simp_all

lemma subdir_loop:
  assumes "\<forall>s \<in> set subs. wiped_ok s"
    and "distinct (map node_name subs)"
    and "\<forall>s \<in> set subs. \<forall>c \<in> set cur. node_name c = node_name s \<longrightarrow> c = s"
  shows "foldl (\<lambda>acc subdir.
                  wipe_subdir acc
                    (wipe_all_cleanable (dir @ [node_name subdir]) subdir (fst (snd acc))))
               (f0, st0, out0, Dir n x cur) subs =
         (f0 + sum_list (map wipe_freed subs),
          st0\<lparr>deleted_count := deleted_count st0 + sum_list (map wipe_count subs)\<rparr>,
          out0 @ concat (map (\<lambda>s. wipe_out (dir @ [node_name s]) s) subs),
          Dir n x (map (\<lambda>c. if c \<in> set subs then wipe_tree c else c) cur))"
  using assms
proof (induction subs arbitrary: f0 st0 out0 cur)
  case Nil
  show ?case by simp
next
  case (Cons s subs)
  let ?g = "\<lambda>c'. if node_name c' = node_name (wipe_tree s) then wipe_tree s else c'"
  have ws: "wipe_all_cleanable (dir @ [node_name s]) s st0 =
      (wipe_freed s, st0\<lparr>deleted_count := deleted_count st0 + wipe_count s\<rparr>,
       wipe_out (dir @ [node_name s]) s, wipe_tree s)"
    using Cons.prems(1) by (simp add: wiped_ok_def)
  have one: "wipe_subdir (f0, st0, out0, Dir n x cur)
               (wipe_all_cleanable (dir @ [node_name s]) s (fst (snd (f0, st0, out0, Dir n x cur)))) =
             (f0 + wipe_freed s, st0\<lparr>deleted_count := deleted_count st0 + wipe_count s\<rparr>,
              out0 @ wipe_out (dir @ [node_name s]) s, Dir n x (map ?g cur))"
    by (simp add: ws)
  have p1: "\<forall>s' \<in> set subs. wiped_ok s'" using Cons.prems(1) by simp
  have p2: "distinct (map node_name subs)" using Cons.prems(2) by simp
  have nin: "node_name s \<notin> node_name ` set subs" using Cons.prems(2) by simp
  have p3: "\<forall>s' \<in> set subs. \<forall>c \<in> set (map ?g cur). node_name c = node_name s' \<longrightarrow> c = s'"
  proof (intro ballI impI)
    fix s' c assume s': "s' \<in> set subs" and c: "c \<in> set (map ?g cur)" and eq: "node_name c = node_name s'"
    from c obtain c0 where c0: "c0 \<in> set cur" "c = ?g c0" by auto
    have ne: "node_name s' \<noteq> node_name s" using nin s' by (metis imageI)
    show "c = s'"
    proof (cases "node_name c0 = node_name s")
      case True
      then have "c = wipe_tree s" using c0 by (simp add: node_name_wipe_tree)
      then have "node_name c = node_name s" by (simp add: node_name_wipe_tree)
      with eq ne show ?thesis by simp
    next
      case False
      then have "c = c0" using c0 by (simp add: node_name_wipe_tree)
      with c0 eq s' Cons.prems(3) show ?thesis by simp
    qed
  qed
  have tree: "map (\<lambda>c. if c \<in> set subs then wipe_tree c else c) (map ?g cur) =
              map (\<lambda>c. if c \<in> set (s # subs) then wipe_tree c else c) cur"
  proof (rule list.map_cong0 [THEN trans [OF list.map_comp]], goal_cases)
    case (1 c0)
    show ?case
    proof (cases "node_name c0 = node_name s")
      case True
      then have "c0 = s" using Cons.prems(3) 1 by simp
      moreover have "wipe_tree s \<notin> set subs"
        using nin by (metis imageI node_name_wipe_tree)
      ultimately show ?thesis by (simp add: node_name_wipe_tree)
    next
      case False
      then have "c0 \<noteq> s" by auto
      with False show ?thesis by (simp add: node_name_wipe_tree)
    qed
  qed
  show ?case
    apply (simp only: foldl_Cons one)
    apply (subst Cons.IH [OF p1 p2 p3])
    apply (simp only: tree)
    apply (simp add: add.assoc)
    done
qed

lemma wipe_File:
  "wipe_all_cleanable dir (File n sz) st = (0, st, [], File n sz)"
  by (subst wipe_all_cleanable.simps)
     (simp add: wipe_here_def delete_each_def find_cleanable_in_dir_def get_subdirs_def)

lemma wipe_here_Dir:
  assumes "distinct (map node_name es)"
  shows "wipe_here dir (find_cleanable_in_dir (Dir n x es)) st (Dir n x es) =
         (sum_list (map get_dir_size (filter goes es)),
          st\<lparr>deleted_count := deleted_count st + length (filter goes es)\<rparr>,
          map (attempt (\<lambda>path size. WipeDeleted (relative_to_parent dir path) size) dir) (filter cleanable es),
          Dir n x (filter (\<lambda>e. \<not> goes e) es))"
  unfolding wipe_here_def by (rule delete_each_Dir [OF assms])

lemma distinct_names_sorted:
  assumes "distinct (map node_name es)"
  shows "distinct (map node_name (sort_key node_name (filter P es)))"
proof -
  have "distinct es" "inj_on node_name (set es)" using assms by (simp_all add: distinct_map)
  then have "distinct (sort_key node_name (filter P es))"
    "inj_on node_name (set (sort_key node_name (filter P es)))"
    by (auto intro: inj_on_subset)
  then show ?thesis by (simp add: distinct_map)
qed

lemma same_name_same_entry:
  assumes "distinct (map node_name es)" "s \<in> set es" "c \<in> set es" "node_name c = node_name s"
  shows "c = s"
proof -
  have "inj_on node_name (set es)" using assms(1) by (simp add: distinct_map)
  then show ?thesis using assms(2-4) by (auto dest: inj_onD)
qed

lemma sum_filter_concat:
  "sum_list (map f (filter P (concat (map g xs)))) =
   sum_list (map (\<lambda>x. sum_list (map f (filter P (g x)))) xs)"
  by (induction xs) simp_all

lemma length_filter_concat:
  "length (filter P (concat (map g xs))) = sum_list (map (\<lambda>x. length (filter P (g x))) xs)"
  by (induction xs) simp_all

lemma wipe_freed_Dir:
  "wipe_freed (Dir n x es) =
   sum_list (map get_dir_size (filter goes es))
   + sum_list (map wipe_freed (sort_key node_name (filter navigable es)))"
proof -
  have "wipe_freed = (\<lambda>d. sum_list (map get_dir_size (filter (\<lambda>e. rmtree e = None) (reached d))))"
    by (rule ext) (simp add: wipe_freed_def)
  then show ?thesis
    by (simp add: wipe_freed_def goes_def [abs_def] sum_filter_concat)
qed

lemma wipe_count_Dir:
  "wipe_count (Dir n x es) =
   length (filter goes es)
   + sum_list (map wipe_count (sort_key node_name (filter navigable es)))"
proof -
  have "wipe_count = (\<lambda>d. length (filter (\<lambda>e. rmtree e = None) (reached d)))"
    by (rule ext) (simp add: wipe_count_def)
  then show ?thesis
    by (simp add: wipe_count_def goes_def [abs_def] length_filter_concat)
qed

lemma wiped_ok_wf: "wf_node d \<Longrightarrow> wiped_ok d"
proof (induction d)
  case (File n sz)
  show ?case by (simp add: wiped_ok_def wipe_File wipe_freed_def wipe_count_def)
next
  case (Dir n x es)
  have dist: "distinct (map node_name es)" and wfs: "\<forall>e \<in> set es. wf_node e"
    using Dir.prems by (simp_all add: list_all_iff)
  let ?es1 = "filter (\<lambda>e. \<not> goes e) es"
  let ?subs = "sort_key node_name (filter navigable es)"
  have subs1: "get_subdirs (Dir n x ?es1) = ?subs"
    by (simp only: get_subdirs_Dir filter_navigable_kept)
  have ok: "\<forall>s \<in> set ?subs. wiped_ok s"
    using Dir.IH wfs by auto
  have dsubs: "distinct (map node_name ?subs)" by (rule distinct_names_sorted [OF dist])
  have same: "\<forall>s \<in> set ?subs. \<forall>c \<in> set ?es1. node_name c = node_name s \<longrightarrow> c = s"
    using same_name_same_entry [OF dist] by auto
  have tree: "map (\<lambda>c. if c \<in> set ?subs then wipe_tree c else c) ?es1 =
              map (\<lambda>e. if navigable e then wipe_tree e else e) ?es1"
    by (rule map_cong) auto
  show ?case
    unfolding wiped_ok_def
  proof (intro allI)
    fix dir st
    show "wipe_all_cleanable dir (Dir n x es) st =
          (wipe_freed (Dir n x es), st\<lparr>deleted_count := deleted_count st + wipe_count (Dir n x es)\<rparr>,
           wipe_out dir (Dir n x es), wipe_tree (Dir n x es))"
      apply (subst wipe_all_cleanable.simps)
      apply (simp only: wipe_here_Dir [OF dist] Let_def snd_conv subs1)
      apply (subst subdir_loop [OF ok dsubs same])
      apply (simp only: tree)
      apply (simp add: wipe_freed_Dir wipe_count_Dir add.assoc)
      done
  qed
qed

section \<open>After a wipe\<close>

lemma exists_under_wipe_tree:
  "wf_node d \<Longrightarrow> exists_under (wipe_tree d) p \<Longrightarrow> exists_under d p"
proof (induction d arbitrary: p)
  case (File n sz)
  then show ?case by simp
next
  case (Dir n x es)
  show ?case
  proof (cases p)
    case Nil
    then show ?thesis by simp
  next
    case (Cons a rest)
    let ?T = "\<lambda>e. if navigable e then wipe_tree e else e"
    let ?es' = "map ?T (filter (\<lambda>e. \<not> goes e) es)"
    have dist: "distinct (map node_name es)" and wfs: "\<forall>e \<in> set es. wf_node e"
      using Dir.prems(1) by (simp_all add: list_all_iff)
    from Dir.prems(2) Cons obtain c' where
      f: "find (\<lambda>c. node_name c = a) ?es' = Some c'" and ex: "exists_under c' rest"
      by (auto split: option.splits)
    from find_SomeD [OF f] have "c' \<in> set ?es'" and na: "node_name c' = a"
      by simp_all
    then obtain c where c: "c \<in> set es" "c' = ?T c" by auto
    have nc: "node_name c = a" using c(2) na by (auto simp: node_name_wipe_tree split: if_splits)
    have "exists_under c rest"
    proof (cases "navigable c")
      case True
      then have "c' = wipe_tree c" using c(2) by simp
      with ex Dir.IH [OF c(1)] wfs c(1) show ?thesis by auto
    next
      case False
      then show ?thesis using c(2) ex by simp
    qed
    moreover have "find (\<lambda>c'. node_name c' = a) es = Some c"
      using find_by_name [OF dist c(1)] nc by simp
    ultimately show ?thesis using Cons by simp
  qed
qed

lemma navigable_wipe_tree:
  assumes "wf_node e" "navigable e"
  shows "navigable (wipe_tree e)"
proof -
  have "\<not> is_venv (wipe_tree e)"
  proof
    assume "is_venv (wipe_tree e)"
    then have "list_ex (exists_under (wipe_tree e)) indicators"
      by (simp add: is_venv_def split: if_splits)
    then have "list_ex (exists_under e) indicators"
      using exists_under_wipe_tree [OF assms(1)] by (auto simp: list_ex_iff)
    then have "is_venv e" using assms(2) by (simp add: is_venv_def navigable_def)
    with assms(2) show False by (simp add: navigable_def)
  qed
  then show ?thesis
    using assms(2) by (simp add: navigable_def is_dir_wipe_tree is_node_modules_def node_name_wipe_tree)
qed

lemma ball_map_filter:
  "(\<And>e. e \<in> set es \<Longrightarrow> Q e \<Longrightarrow> R (f e)) \<Longrightarrow> \<forall>y \<in> set (map f (filter Q es)). R y"
  by (induction es) auto

lemma names_wipe_tree:
  "map node_name (map (\<lambda>e. if navigable e then wipe_tree e else e) xs) = map node_name xs"
  by (induction xs) (simp_all add: node_name_wipe_tree)

lemma wf_wipe_tree: "wf_node d \<Longrightarrow> wf_node (wipe_tree d)"
proof (induction d)
  case (File n sz)
  then show ?case by simp
next
  case (Dir n x es)
  let ?T = "\<lambda>e. if navigable e then wipe_tree e else e"
  have dist: "distinct (map node_name es)" and wfs: "\<forall>e \<in> set es. wf_node e"
    using Dir.prems by (simp_all add: list_all_iff)
  have "distinct (map node_name (filter (\<lambda>e. \<not> goes e) es))"
    using dist by (rule distinct_map_filter)
  then have d: "distinct (map node_name (map ?T (filter (\<lambda>e. \<not> goes e) es)))"
    by (simp only: names_wipe_tree)
  have "wf_node (?T e)" if "e \<in> set es" for e
    using Dir.IH [OF that] wfs that by simp
  then have "\<forall>y \<in> set (map ?T (filter (\<lambda>e. \<not> goes e) es)). wf_node y"
    by (intro ball_map_filter)
  then have w: "list_all wf_node (map ?T (filter (\<lambda>e. \<not> goes e) es))"
    by (simp only: list_all_iff)
  show ?case using d w by (simp only: wipe_tree.simps wf_node.simps simp_thms)
qed

lemma reached_wipe_tree:
  assumes "wf_node d" "\<forall>e \<in> set (reached d). rmtree e = None"
  shows "reached (wipe_tree d) = []"
  using assms
proof (induction d)
  case (File n sz)
  show ?case by simp
next
  case (Dir n x es)
  let ?T = "\<lambda>e. if navigable e then wipe_tree e else e"
  define es' where "es' = map ?T (filter (\<lambda>e. \<not> goes e) es)"
  have wfs: "\<forall>e \<in> set es. wf_node e"
    using Dir.prems(1) by (simp add: list_all_iff)
  have all_go: "\<forall>e \<in> set es. cleanable e \<longrightarrow> goes e"
    using Dir.prems(2) by (auto simp: goes_def)
  have sub_ok: "\<forall>e \<in> set (reached s). rmtree e = None" if "s \<in> set es" "navigable s" for s
    using Dir.prems(2) that by auto
  have "\<not> cleanable (?T e) \<and> (navigable (?T e) \<longrightarrow> reached (?T e) = [])"
    if "e \<in> set es" "\<not> goes e" for e
  proof (cases "navigable e")
    case True
    then have "navigable (wipe_tree e)" using navigable_wipe_tree wfs that(1) by blast
    moreover have "reached (wipe_tree e) = []"
      using Dir.IH [OF that(1)] wfs that(1) sub_ok [OF that(1) True] by auto
    ultimately show ?thesis using True by (simp add: navigable_not_cleanable)
  next
    case False
    with all_go that show ?thesis by auto
  qed
  then have "\<forall>y \<in> set es'. \<not> cleanable y \<and> (navigable y \<longrightarrow> reached y = [])"
    unfolding es'_def by (intro ball_map_filter)
  then have "reached (Dir n x es') = []"
    by (auto simp: filter_empty_conv)
  moreover have "wipe_tree (Dir n x es) = Dir n x es'" by (simp add: es'_def)
  ultimately show ?case by simp
qed

lemma cleanable_below_reached: "cleanable_below d = map listed (reached d)"
proof (induction d)
  case (File n sz)
  show ?case
    by (subst cleanable_below.simps) (simp add: find_cleanable_in_dir_def get_subdirs_def)
next
  case (Dir n x es)
  let ?subs = "sort_key node_name (filter navigable es)"
  have eq: "map cleanable_below ?subs = map (\<lambda>s. map listed (reached s)) ?subs"
    by (rule map_cong) (auto simp: Dir.IH)
  have "cleanable_below (Dir n x es) =
        find_cleanable_in_dir (Dir n x es) @ concat (map cleanable_below (get_subdirs (Dir n x es)))"
    by (rule cleanable_below.simps)
  also have "\<dots> = map listed (filter cleanable es) @ concat (map cleanable_below ?subs)"
    by (simp only: find_cleanable_Dir get_subdirs_Dir)
  also have "\<dots> = map listed (filter cleanable es) @ concat (map (\<lambda>s. map listed (reached s)) ?subs)"
    by (simp only: eq)
  also have "\<dots> = map listed (reached (Dir n x es))"
    by (simp add: map_concat comp_def)
  finally show ?case .
qed

lemma reached_removable:
  "list_all removable (entries_of d) \<Longrightarrow> e \<in> set (reached d) \<Longrightarrow> rmtree e = None"
proof (induction d)
  case (File n sz)
  then show ?case by simp
next
  case (Dir n x es)
  from Dir.prems(2) consider (here) "e \<in> set es" "cleanable e"
    | (below) s where "s \<in> set es" "navigable s" "e \<in> set (reached s)"
    by auto
  then show ?case
  proof cases
    case here
    then have "removable e" using Dir.prems(1) by (simp add: list_all_iff)
    moreover have "is_dir e" using here(2) by (rule cleanable_is_dir)
    ultimately show ?thesis by (cases e) simp_all
  next
    case below
    then have "removable s" using Dir.prems(1) by (simp add: list_all_iff)
    then have "list_all removable (entries_of s)" by (cases s) simp_all
    then show ?thesis using Dir.IH [OF below(1)] below(3) by simp
  qed
qed

lemma wipe_all_removable:
  assumes "wf_node d" "list_all removable (entries_of d)"
  shows "wipe_all_cleanable dir d st =
           (sum_list (map (\<lambda>(p, t, sz). sz) (cleanable_below d)),
            st\<lparr>deleted_count := deleted_count st + length (cleanable_below d)\<rparr>,
            wipe_out dir d, wipe_tree d)"
    and "cleanable_below (wipe_tree d) = []"
    and "node_name (wipe_tree d) = node_name d"
proof -
  have all: "\<forall>e \<in> set (reached d). rmtree e = None"
    using reached_removable [OF assms(2)] by blast
  then have f: "filter (\<lambda>e. rmtree e = None) (reached d) = reached d"
    by (simp add: filter_id_conv)
  have "wiped_ok d" using assms(1) by (rule wiped_ok_wf)
  then show "wipe_all_cleanable dir d st =
           (sum_list (map (\<lambda>(p, t, sz). sz) (cleanable_below d)),
            st\<lparr>deleted_count := deleted_count st + length (cleanable_below d)\<rparr>,
            wipe_out dir d, wipe_tree d)"
    by (simp add: wiped_ok_def wipe_freed_def wipe_count_def f cleanable_below_reached
        comp_def listed_def)
  show "cleanable_below (wipe_tree d) = []"
    using reached_wipe_tree [OF assms(1) all] by (simp add: cleanable_below_reached)
  show "node_name (wipe_tree d) = node_name d" by (rule node_name_wipe_tree)
qed

section \<open>Writing a directory back\<close>

lemma find_map_same:
  "(\<forall>c \<in> set es. P (f c) = P c) \<Longrightarrow> find P (map f es) = map_option f (find P es)"
  by (induction es) auto

lemma name_replace:
  "node_name (replace c p d') = (if p = [] then node_name d' else node_name c)"
  by (cases p; cases c) simp_all

lemma lookup_replace:
  "lookup r p = Some d \<Longrightarrow> node_name d' = node_name d \<Longrightarrow> lookup (replace r p d') p = Some d'"
proof (induction p arbitrary: r)
  case Nil
  show ?case by simp
next
  case (Cons a rest)
  from Cons.prems(1) obtain n x es where r: "r = Dir n x es"
    by (cases r) simp_all
  from Cons.prems(1) r obtain c where
    c: "find (\<lambda>c. node_name c = a) es = Some c" "lookup c rest = Some d"
    by (auto split: option.splits)
  have ca: "node_name c = a" using find_SomeD [OF c(1)] by simp
  let ?f = "\<lambda>c. if node_name c = a then replace c rest d' else c"
  have nd: "rest = [] \<Longrightarrow> node_name d' = a"
    using c(2) ca Cons.prems(2) by simp
  have same: "\<forall>c' \<in> set es. (node_name (?f c') = a) = (node_name c' = a)"
    using nd by (auto simp: name_replace)
  have "find (\<lambda>c. node_name c = a) (map ?f es) = Some (replace c rest d')"
    using find_map_same [where P = "\<lambda>c. node_name c = a" and f = ?f, OF same] c(1) ca by simp
  moreover have "lookup (replace c rest d') rest = Some d'"
    using Cons.IH [OF c(2) Cons.prems(2)] .
  ultimately show ?case using r by simp
qed

lemma filter_cong_set: "(\<And>x. x \<in> set xs \<Longrightarrow> P x = Q x) \<Longrightarrow> filter P xs = filter Q xs"
  by (rule filter_cong) auto

section \<open>The session\<close>

lemma display_fields [simp]:
  "stats (display st) = stats st" "root (display st) = root st" "current (display st) = current st"
  "callers (display st) = callers st" "status (display st) = status st"
  "start_path (display st) = start_path st"
  by (simp_all add: display_def Let_def)

lemma step_wipe:
  assumes "status st = Running" "\<not> awaiting_enter (current st)" "read_choice line = ''w''"
    and "can_wipe (cleanable_at (root st) (directory (current st))) (current st)"
  shows "step st line = do_wipe st"
  using assms by (simp add: step_def Let_def)

lemma do_wipe_at:
  assumes "lookup (root st) (directory (current st)) = Some d"
    and "wipe_all_cleanable (directory (current st)) d (stats st) = (freed, stats1, msgs, d')"
  shows "stats (do_wipe st) = stats1\<lparr>total_freed := total_freed stats1 + freed\<rparr>"
    and "root (do_wipe st) = replace (root st) (directory (current st)) d'"
    and "directory (current (do_wipe st)) = directory (current st)"
    and "status (do_wipe st) = status st"
    and "callers (do_wipe st) = callers st"
  using assms by (simp_all add: do_wipe_def Let_def)

lemma step_clean:
  assumes "status st = Running" "\<not> awaiting_enter (current st)" "read_choice line = ''c''"
    and "cleanable_at (root st) (directory (current st)) \<noteq> []"
  shows "step st line = do_clean st"
  using assms by (simp add: step_def Let_def)

lemma do_clean_at:
  assumes "lookup (root st) (directory (current st)) = Some d"
    and "clean_here (directory (current st)) (find_cleanable_in_dir d) (stats st) d = (freed, stats1, msgs, d')"
  shows "stats (do_clean st) = stats1\<lparr>total_freed := total_freed stats1 + freed\<rparr>"
    and "root (do_clean st) = replace (root st) (directory (current st)) d'"
    and "current (do_clean st) = current st"
    and "status (do_clean st) = status st"
    and "callers (do_clean st) = callers st"
  using assms by (simp_all add: do_clean_def Let_def)

section \<open>The wipe action\<close>

text \<open>
  C1. Take any session waiting for a choice at a directory whose cleanable entries are
  \<open>a\<close> (a venv of 100 bytes) and \<open>b\<close> (a \<^verbatim>\<open>node_modules\<close> of 200 bytes) and which
  has one subdirectory, with one more cleanable entry \<open>c\<close> (a venv of 50 bytes)
  somewhere below it, at whatever depth; names are unique within each directory and
  every removal succeeds. On \<^verbatim>\<open>w\<close> the deleted count grows by 3, the bytes freed grow
  by 350, and no cleanable entry is left at or below the directory.
\<close>

theorem wipe_scenario:
  assumes "status st = Running" and "\<not> awaiting_enter (current st)"
    and "read_choice line = ''w''"
    and "lookup (root st) (directory (current st)) = Some d"
    and "wf_node d" and "list_all removable (entries_of d)"
    and "find_cleanable_in_dir d = [(a, ''venv'', 100), (b, ''node_modules'', 200)]"
    and "get_subdirs d = [sub]"
    and "cleanable_below sub = [(c, ''venv'', 50)]"
  shows "deleted_count (stats (step st line)) = deleted_count (stats st) + 3
       \<and> total_freed (stats (step st line)) = total_freed (stats st) + 350
       \<and> (\<exists>d'. lookup (root (step st line)) (directory (current st)) = Some d'
                \<and> cleanable_below d' = [])"
proof -
  have cb: "cleanable_below d = [(a, ''venv'', 100), (b, ''node_modules'', 200), (c, ''venv'', 50)]"
    by (subst cleanable_below.simps) (simp add: assms(7,8,9))
  have cw: "can_wipe (cleanable_at (root st) (directory (current st))) (current st)"
    by (simp add: can_wipe_def cleanable_at_def assms(4,7))
  have st: "step st line = do_wipe st"
    using assms(1,2,3) cw by (rule step_wipe)
  have w: "wipe_all_cleanable (directory (current st)) d (stats st) =
        (350, (stats st)\<lparr>deleted_count := deleted_count (stats st) + 3\<rparr>,
         wipe_out (directory (current st)) d, wipe_tree d)"
    using wipe_all_removable(1) [OF assms(5,6), of "directory (current st)" "stats st"]
    by (simp add: cb)
  have "lookup (replace (root st) (directory (current st)) (wipe_tree d)) (directory (current st))
        = Some (wipe_tree d)"
    using assms(4) by (rule lookup_replace) (rule node_name_wipe_tree)
  moreover have "cleanable_below (wipe_tree d) = []"
    by (rule wipe_all_removable(2) [OF assms(5,6)])
  ultimately show ?thesis
    by (simp add: st do_wipe_at [OF assms(4) w])
qed

text \<open>
  The session of \<open>deep_session\<close>: the third entry lies twelve levels below the
  project, where the recursive scan with its cap of 10 does not see it.
\<close>

theorem wipe_scenario_witness:
  "status deep_session = Running
   \<and> lookup (root deep_session) (directory (current deep_session)) = Some deep_project
   \<and> find_cleanable_in_dir deep_project =
        [(''env'', ''venv'', 100), (''node_modules'', ''node_modules'', 200)]
   \<and> get_subdirs deep_project = [deep_sub]
   \<and> cleanable_below deep_sub = [(''venv'', ''venv'', 50)]
   \<and> scan_recursive deep_project 10 = (2, 300)
   \<and> deleted_count (stats (step deep_session ''w'')) = 3
   \<and> total_freed (stats (step deep_session ''w'')) = 350
   \<and> (\<exists>d'. lookup (root (step deep_session ''w'')) (directory (current deep_session)) = Some d'
            \<and> cleanable_below d' = [])"
proof -
  have h1: "status deep_session = Running" by code_simp
  have h2: "\<not> awaiting_enter (current deep_session)" by code_simp
  have h3: "read_choice ''w'' = ''w''" by code_simp
  have h4: "lookup (root deep_session) (directory (current deep_session)) = Some deep_project"
    by code_simp
  have h5: "wf_node deep_project" by code_simp
  have h6: "list_all removable (entries_of deep_project)" by code_simp
  have h7: "find_cleanable_in_dir deep_project =
        [(''env'', ''venv'', 100), (''node_modules'', ''node_modules'', 200)]" by code_simp
  have h8: "get_subdirs deep_project = [deep_sub]" by code_simp
  have h9: "cleanable_below deep_sub = [(''venv'', ''venv'', 50)]" by code_simp
  have s: "scan_recursive deep_project 10 = (2, 300)" by code_simp
  have z: "deleted_count (stats deep_session) = 0" "total_freed (stats deep_session) = 0"
    by code_simp+
  show ?thesis
    using wipe_scenario [OF h1 h2 h3 h4 h5 h6 h7 h8 h9] h1 h4 h7 h8 h9 s z by simp
qed

section \<open>The clean action\<close>

text \<open>
  C5. Take any session waiting for a choice at a directory with at least one cleanable
  entry, where names are unique and the removal of every cleanable entry succeeds. On
  \<^verbatim>\<open>c\<close> the directory keeps exactly its entries that are not cleanable, so that its
  subdirectories, with all they hold, are the very same as before and nothing
  cleanable is left in the directory itself; the bytes freed grow by the sizes of the
  entries that were listed, and the deleted count by their number.
\<close>

theorem clean_only:
  assumes "status st = Running" and "\<not> awaiting_enter (current st)"
    and "read_choice line = ''c''"
    and "lookup (root st) (directory (current st)) = Some (Dir n x es)"
    and "distinct (map node_name es)"
    and "find_cleanable_in_dir (Dir n x es) \<noteq> []"
    and "\<forall>e \<in> set es. classify e \<noteq> None \<longrightarrow> rmtree e = None"
  shows "lookup (root (step st line)) (directory (current st)) =
           Some (Dir n x (filter (\<lambda>e. classify e = None) es))
       \<and> get_subdirs (Dir n x (filter (\<lambda>e. classify e = None) es)) = get_subdirs (Dir n x es)
       \<and> find_cleanable_in_dir (Dir n x (filter (\<lambda>e. classify e = None) es)) = []
       \<and> total_freed (stats (step st line)) =
           total_freed (stats st) + sum_list (map (\<lambda>(p, t, sz). sz) (find_cleanable_in_dir (Dir n x es)))
       \<and> deleted_count (stats (step st line)) =
           deleted_count (stats st) + length (find_cleanable_in_dir (Dir n x es))"
proof -
  have g: "filter goes es = filter cleanable es"
    by (rule filter_cong_set) (use assms(7) in \<open>auto simp: goes_def cleanable_def\<close>)
  have k: "filter (\<lambda>e. \<not> goes e) es = filter (\<lambda>e. classify e = None) es"
    by (rule filter_cong_set) (use assms(7) in \<open>auto simp: goes_def cleanable_def\<close>)
  have st: "step st line = do_clean st"
    using assms(1,2,3) by (rule step_clean) (simp add: cleanable_at_def assms(4,6))
  have c: "clean_here (directory (current st)) (find_cleanable_in_dir (Dir n x es)) (stats st) (Dir n x es) =
        (sum_list (map get_dir_size (filter cleanable es)),
         (stats st)\<lparr>deleted_count := deleted_count (stats st) + length (filter cleanable es)\<rparr>,
         map (attempt (\<lambda>path size. CleanDeleted path) (directory (current st))) (filter cleanable es),
         Dir n x (filter (\<lambda>e. classify e = None) es))"
    unfolding clean_here_def by (simp only: delete_each_Dir [OF assms(5)] g k)
  have l: "lookup (replace (root st) (directory (current st)) (Dir n x (filter (\<lambda>e. classify e = None) es)))
             (directory (current st)) = Some (Dir n x (filter (\<lambda>e. classify e = None) es))"
    using assms(4) by (rule lookup_replace) simp
  have s: "get_subdirs (Dir n x (filter (\<lambda>e. classify e = None) es)) = get_subdirs (Dir n x es)"
  proof -
    have "filter navigable (filter (\<lambda>e. classify e = None) es) = filter navigable es"
      by (induction es) (auto dest: navigable_not_cleanable simp: cleanable_def)
    then show ?thesis by (simp only: get_subdirs_Dir)
  qed
  have e: "find_cleanable_in_dir (Dir n x (filter (\<lambda>e. classify e = None) es)) = []"
    by (auto simp: find_cleanable_Dir cleanable_def filter_empty_conv)
  have sz: "sum_list (map (\<lambda>(p, t, sz). sz) (find_cleanable_in_dir (Dir n x es))) =
            sum_list (map get_dir_size (filter cleanable es))"
    by (simp add: find_cleanable_Dir comp_def listed_def)
  have ln: "length (find_cleanable_in_dir (Dir n x es)) = length (filter cleanable es)"
    by (simp add: find_cleanable_Dir)
  show ?thesis
    using l s e by (simp add: st do_clean_at [OF assms(4) c] sz ln)
qed

text \<open>
  In the session of \<open>deep_session\<close> the two entries of 100 and 200 bytes go, 300 bytes are
  freed, and the third entry is still there, below the subdirectory.
\<close>

theorem clean_only_witness:
  "status deep_session = Running
   \<and> find_cleanable_in_dir deep_project =
        [(''env'', ''venv'', 100), (''node_modules'', ''node_modules'', 200)]
   \<and> lookup (root (step deep_session ''c'')) (directory (current deep_session)) =
        Some (Dir ''proj'' None [File ''main.py'' 7, deep_sub])
   \<and> cleanable_below (Dir ''proj'' None [File ''main.py'' 7, deep_sub]) = [(''venv'', ''venv'', 50)]
   \<and> total_freed (stats (step deep_session ''c'')) = 300
   \<and> deleted_count (stats (step deep_session ''c'')) = 2"
proof -
  let ?es = "[Dir ''env'' None [File ''pyvenv.cfg'' 100],
              Dir ''node_modules'' None [File ''index.js'' 200],
              File ''main.py'' 7, deep_sub]"
  have p: "deep_project = Dir ''proj'' None ?es" by (simp only: deep_project_def)
  have h1: "status deep_session = Running" by code_simp
  have h2: "\<not> awaiting_enter (current deep_session)" by code_simp
  have h3: "read_choice ''c'' = ''c''" by code_simp
  have h4: "lookup (root deep_session) (directory (current deep_session)) = Some (Dir ''proj'' None ?es)"
    unfolding p [symmetric] by code_simp
  have h5: "distinct (map node_name ?es)" by code_simp
  have h7: "find_cleanable_in_dir deep_project =
        [(''env'', ''venv'', 100), (''node_modules'', ''node_modules'', 200)]" by code_simp
  have h6: "find_cleanable_in_dir (Dir ''proj'' None ?es) \<noteq> []"
    unfolding p [symmetric] by (simp add: h7)
  have h8: "list_all (\<lambda>e. classify e \<noteq> None \<longrightarrow> rmtree e = None) ?es" by code_simp
  have h8': "\<forall>e \<in> set ?es. classify e \<noteq> None \<longrightarrow> rmtree e = None"
    using h8 by (simp only: list_all_iff)
  have k: "filter (\<lambda>e. classify e = None) ?es = [File ''main.py'' 7, deep_sub]" by code_simp
  have b: "cleanable_below (Dir ''proj'' None [File ''main.py'' 7, deep_sub]) = [(''venv'', ''venv'', 50)]"
    by code_simp
  have z: "deleted_count (stats deep_session) = 0" "total_freed (stats deep_session) = 0"
    by code_simp+
  note r = clean_only [OF h1 h2 h3 h4 h5 h6 h8', unfolded k p [symmetric] h7]
  have r1: "lookup (root (step deep_session ''c'')) (directory (current deep_session)) =
        Some (Dir ''proj'' None [File ''main.py'' 7, deep_sub])"
    using r by (rule conjunct1)
  have r4: "total_freed (stats (step deep_session ''c'')) = 300"
    using r z by simp
  have r5: "deleted_count (stats (step deep_session ''c'')) = 2"
    using r z by simp
  show ?thesis
    using h1 h7 r1 b r4 r5 by (intro conjI)
qed

section \<open>A deletion that fails\<close>



section \<open>Steps of the session\<close>

lemma out_display: "out (display st) = out st @
           [Shown (directory (current st)) (cleanable_at (root st) (directory (current st)))
              (if has_recursive_items (current st) = Some True
               then Some (recursive_count (current st), recursive_size (current st)) else None)
              (map last (subdirs_at (root st) (directory (current st))))
              (actions st)]"
  by (simp add: display_def Let_def)

lemma run_Nil [simp]: "run st [] = st"
  by (simp add: run_def)

lemma run_Cons [simp]: "run st (l # ls) = run (step st l) ls"
  by (simp add: run_def)

lemma run_append: "run st (xs @ ys) = run (run st xs) ys"
  by (simp add: run_def)

lemma step_Exited: "status st = Exited c \<Longrightarrow> step st l = st"
  by (simp add: step_def)

lemma run_Exited: "status st = Exited c \<Longrightarrow> run st ls = st"
  by (induction ls) (simp_all add: step_Exited)

lemma step_quit:
  assumes "status st = Running" "\<not> awaiting_enter (current st)" "read_choice line = ''q''"
  shows "step st line = st\<lparr>out := out st @ [Quitting], status := Exited 0\<rparr>"
  using assms by (simp add: step_def Let_def)

lemma step_skip:
  assumes "status st = Running" "\<not> awaiting_enter (current st)" "read_choice line = ''s''"
  shows "step st line = return_to_caller Skip st"
  using assms by (simp add: step_def Let_def)

lemma step_next:
  assumes "status st = Running" "\<not> awaiting_enter (current st)" "read_choice line = ''n''"
    "has_next (current st)"
  shows "step st line = return_to_caller Next st"
  using assms by (simp add: step_def Let_def)

lemma step_prev:
  assumes "status st = Running" "\<not> awaiting_enter (current st)" "read_choice line = ''p''"
    "has_prev (current st)"
  shows "step st line = return_to_caller Prev st"
  using assms by (simp add: step_def Let_def)

lemma return_to_main:
  "callers st = [] \<Longrightarrow> return_to_caller result st =
     st\<lparr>out := out st @ [Summary (deleted_count (stats st)) (total_freed (stats st))],
        status := Exited 0\<rparr>"
  by (simp add: return_to_caller_def)

lemma start_fields:
  "status (start fs p) = Running" "callers (start fs p) = []" "root (start fs p) = fs"
  "stats (start fs p) = \<lparr>total_freed = 0, deleted_count = 0\<rparr>"
  "start_path (start fs p) = p"
  "directory (current (start fs p)) = p"
  "\<not> awaiting_enter (current (start fs p))"
  "parent_subdirs (current (start fs p)) = fst (siblings fs p)"
  "current_idx (current (start fs p)) = snd (siblings fs p)"
  by (simp_all add: start_def new_frame_def split: prod.splits)

lemma main_run:
  assumes "lookup fs p \<noteq> None" "status (run (start fs p) ls) = Exited c"
  shows "main fs p ls = run (start fs p) ls"
proof -
  have n: "(lookup fs p = None) = False" using assms(1) by simp
  show ?thesis unfolding main_def n using assms(2) by (simp add: Let_def)
qed

lemma actions_display [simp]: "actions (display st) = actions st"
  by (simp add: actions_def)

lemma in_actions:
  "(NextFolder \<in> set (actions st)) = has_next (current st)"
  "(PrevFolder \<in> set (actions st)) = has_prev (current st)"
  by (simp_all add: actions_def Let_def)

section \<open>No summary before the end\<close>

lemma quiet_simps [simp]:
  "quiet []" "quiet (xs @ ys) = (quiet xs \<and> quiet ys)" "quiet (ev # xs) = (\<not> is_summary ev \<and> quiet xs)"
  by (auto simp: quiet_def)

lemma delete_directory_quiet: "quiet (fst (snd (delete_directory dir a d)))"
  by (simp add: delete_directory_def split: option.splits)

lemma delete_each_quiet:
  assumes "\<And>p s. \<not> is_summary (deleted p s)"
  shows "quiet (fst (snd (snd (delete_each deleted dir cl st d))))"
proof -
  have "quiet (fst (snd (snd (foldl (\<lambda>(freed, stats, out, d) (path, type, size).
              case delete_directory dir path d of
                (True, msgs, d') \<Rightarrow>
                  (freed + size, stats\<lparr>deleted_count := deleted_count stats + 1\<rparr>,
                   out @ msgs @ [deleted path size], d')
              | (False, msgs, d') \<Rightarrow> (freed, stats, out @ msgs, d'))
           acc cl))))" if "quiet (fst (snd (snd acc)))" for acc :: wiped
    using that
  proof (induction cl arbitrary: acc)
    case Nil
    then show ?case by simp
  next
    case (Cons c cs)
    obtain f s out d0 where acc: "acc = (f, s, out, d0)" by (cases acc) auto
    obtain p ty sz where c: "c = (p, ty, sz)" by (cases c) auto
    obtain ok msgs d1 where dd: "delete_directory dir p d0 = (ok, msgs, d1)"
      by (cases "delete_directory dir p d0") auto
    have q: "quiet msgs" using delete_directory_quiet [of dir p d0] dd by simp
    have o: "quiet out" using Cons.prems acc by simp
    show ?case
      using Cons.IH [of "(f + sz, s\<lparr>deleted_count := deleted_count s + 1\<rparr>,
                          out @ msgs @ [deleted p sz], d1)"]
            Cons.IH [of "(f, s, out @ msgs, d1)"] q o assms
      by (cases ok) (simp_all add: acc c dd)
  qed
  from this [of "(0, st, [], d)"] show ?thesis by (simp add: delete_each_def)
qed

lemma wipe_quiet: "quiet (fst (snd (snd (wipe_all_cleanable dir d st))))"
proof (induction dir d st rule: wipe_all_cleanable.induct)
  case (1 dir d st)
  define here where "here = wipe_here dir (find_cleanable_in_dir d) st d"
  have h: "quiet (fst (snd (snd here)))"
    unfolding here_def wipe_here_def by (rule delete_each_quiet) simp
  have "quiet (fst (snd (snd (foldl (\<lambda>acc subdir.
                  wipe_subdir acc
                    (wipe_all_cleanable (dir @ [node_name subdir]) subdir (fst (snd acc))))
               acc subs))))"
    if "quiet (fst (snd (snd acc)))" "set subs \<subseteq> set (get_subdirs (snd (snd (snd here))))" for acc subs
    using that
  proof (induction subs arbitrary: acc)
    case Nil
    then show ?case by simp
  next
    case (Cons s subs)
    obtain f s0 out d0 where acc: "acc = (f, s0, out, d0)" by (cases acc) auto
    obtain f' s' out' d' where w: "wipe_all_cleanable (dir @ [node_name s]) s s0 = (f', s', out', d')"
      by (cases "wipe_all_cleanable (dir @ [node_name s]) s s0") auto
    have "s \<in> set (get_subdirs (snd (snd (snd here))))" using Cons.prems(2) by simp
    then have "quiet (fst (snd (snd (wipe_all_cleanable (dir @ [node_name s]) s (fst (snd acc))))))"
      using "1.IH" [OF here_def] by blast
    then have q: "quiet out'" using w acc by simp
    have "quiet (fst (snd (snd (wipe_subdir acc (wipe_all_cleanable (dir @ [node_name s]) s (fst (snd acc)))))))"
      using Cons.prems(1) q by (simp add: acc w)
    then show ?case using Cons.IH Cons.prems(2) by simp
  qed
  from this [OF h subset_refl] show ?case
    by (subst wipe_all_cleanable.simps) (simp add: Let_def here_def)
qed

lemma quiet_display: "quiet (out (display st)) = quiet (out st)"
  by (simp add: out_display)

lemma status_descend [simp]: "status (descend subs i st) = status st"
  by (simp add: descend_def)

lemma quiet_descend: "quiet (out (descend subs i st)) = quiet (out st)"
  by (simp add: descend_def quiet_display)

lemma quiet_after_child: "quiet (snd (after_child r i len))"
  by (cases r) (simp_all add: after_child_def)

lemma quiet_return:
  assumes "quiet (out st)" "status (return_to_caller r st) = Running"
  shows "quiet (out (return_to_caller r st))"
proof (cases "callers st")
  case Nil
  with assms(2) show ?thesis by (simp add: return_to_caller_def)
next
  case (Cons c rest)
  obtain caller subdirs idx where c: "c = (caller, subdirs, idx)" by (cases c) auto
  obtain j msgs where a: "after_child r idx (int (length subdirs)) = (j, msgs)"
    by (cases "after_child r idx (int (length subdirs))") auto
  have "quiet msgs" using quiet_after_child [of r idx "int (length subdirs)"] a by simp
  then show ?thesis
    using assms(1) by (cases j) (simp_all add: return_to_caller_def Cons c a Let_def quiet_display quiet_descend)
qed

lemma quiet_scan: "quiet (out st) \<Longrightarrow> quiet (out (do_scan st))"
  by (simp add: do_scan_def Let_def split: prod.splits)

lemma quiet_wipe: "quiet (out st) \<Longrightarrow> quiet (out (do_wipe st))"
proof -
  assume q: "quiet (out st)"
  show ?thesis
  proof (cases "lookup (root st) (directory (current st))")
    case None
    then show ?thesis using q by (simp add: do_wipe_def Let_def quiet_display)
  next
    case (Some d)
    obtain f s1 msgs d' where w: "wipe_all_cleanable (directory (current st)) d (stats st) = (f, s1, msgs, d')"
      by (cases "wipe_all_cleanable (directory (current st)) d (stats st)") auto
    have "quiet msgs" using wipe_quiet [of "directory (current st)" d "stats st"] w by simp
    then show ?thesis using q by (simp add: do_wipe_def Let_def quiet_display Some w)
  qed
qed

lemma quiet_clean: "quiet (out st) \<Longrightarrow> quiet (out (do_clean st))"
proof -
  assume q: "quiet (out st)"
  show ?thesis
  proof (cases "lookup (root st) (directory (current st))")
    case None
    then show ?thesis using q by (simp add: do_clean_def Let_def quiet_display)
  next
    case (Some d)
    obtain f s1 msgs d' where w: "clean_here (directory (current st)) (find_cleanable_in_dir d) (stats st) d = (f, s1, msgs, d')"
      by (cases "clean_here (directory (current st)) (find_cleanable_in_dir d) (stats st) d") auto
    have "quiet (fst (snd (snd (clean_here (directory (current st)) (find_cleanable_in_dir d) (stats st) d))))"
      unfolding clean_here_def by (rule delete_each_quiet) simp
    then have "quiet msgs" using w by simp
    then show ?thesis using q by (simp add: do_clean_def Let_def quiet_display Some w)
  qed
qed

lemma quiet_step:
  assumes "quiet (out st)" "status (step st l) = Running"
  shows "quiet (out (step st l))"
proof (cases "status st")
  case (Exited c)
  then show ?thesis using assms by (simp add: step_Exited)
next
  case Running
  show ?thesis
    using assms Running
    by (auto simp: step_def Let_def quiet_display quiet_descend quiet_scan quiet_wipe quiet_clean
        intro: quiet_return split: if_splits)
qed

lemma quiet_run:
  assumes "quiet (out st)" "status (run st ls) = Running"
  shows "quiet (out (run st ls))"
  using assms
proof (induction ls arbitrary: st)
  case Nil
  then show ?case by simp
next
  case (Cons l ls)
  have r: "status (step st l) = Running"
  proof (cases "status (step st l)")
    case Running
    then show ?thesis .
  next
    case (Exited c)
    then have "run (step st l) ls = step st l" by (rule run_Exited)
    with Cons.prems(2) Exited show ?thesis by simp
  qed
  then have "quiet (out (step st l))" using Cons.prems(1) by (intro quiet_step)
  then show ?case using Cons.IH Cons.prems(2) by simp
qed

lemma quiet_start: "quiet (out (start fs p))"
  by (simp add: start_def quiet_display split: prod.splits)

text \<open>
  C7. Take the session at any point of any run of the program: after the lines \<open>pre\<close>
  it is still running and waits for a choice. If the next line reads \<^verbatim>\<open>q\<close>, the
  program ends there with exit code 0: what it has printed is what was printed so far
  and the farewell, whatever lines follow, and no summary is among it. If the next line
  reads \<^verbatim>\<open>s\<close> and the activation is the one \<^verbatim>\<open>main\<close> started, the program ends
  with exit code 0 after printing the summary of the deleted count and the bytes freed.
\<close>

theorem quit_skips_summary:
  assumes "lookup fs p \<noteq> None" and "st = run (start fs p) pre"
    and "status st = Running" and "\<not> awaiting_enter (current st)"
  shows "(read_choice line = ''q'' \<longrightarrow>
            main fs p (pre @ line # rest) = st\<lparr>out := out st @ [Quitting], status := Exited 0\<rparr>
            \<and> (\<forall>c f. Summary c f \<notin> set (out st)))
       \<and> (read_choice line = ''s'' \<and> callers st = [] \<longrightarrow>
            main fs p (pre @ line # rest) =
              st\<lparr>out := out st @ [Summary (deleted_count (stats st)) (total_freed (stats st))],
                 status := Exited 0\<rparr>)"
proof (intro conjI impI)
  assume q: "read_choice line = ''q''"
  have s: "step st line = st\<lparr>out := out st @ [Quitting], status := Exited 0\<rparr>"
    using assms(3,4) q by (rule step_quit)
  have "run (start fs p) (pre @ line # rest) = run (step st line) rest"
    by (simp add: run_append assms(2))
  also have "\<dots> = st\<lparr>out := out st @ [Quitting], status := Exited 0\<rparr>"
    unfolding s by (rule run_Exited) simp
  finally have r: "run (start fs p) (pre @ line # rest) = st\<lparr>out := out st @ [Quitting], status := Exited 0\<rparr>" .
  show "main fs p (pre @ line # rest) = st\<lparr>out := out st @ [Quitting], status := Exited 0\<rparr>"
    using main_run [OF assms(1), of "pre @ line # rest" 0] r by simp
next
  assume "read_choice line = ''q''"
  have "quiet (out st)"
    unfolding assms(2) using quiet_start assms(3) [unfolded assms(2)] by (rule quiet_run)
  then show "\<forall>c f. Summary c f \<notin> set (out st)"
    by (auto simp: quiet_def)
next
  assume a: "read_choice line = ''s'' \<and> callers st = []"
  let ?end = "st\<lparr>out := out st @ [Summary (deleted_count (stats st)) (total_freed (stats st))],
                 status := Exited 0\<rparr>"
  have s: "step st line = ?end"
    using step_skip [OF assms(3,4)] a by (simp add: return_to_main)
  have "run (start fs p) (pre @ line # rest) = run (step st line) rest"
    by (simp add: run_append assms(2))
  also have "\<dots> = ?end"
    unfolding s by (rule run_Exited) simp
  finally have r: "run (start fs p) (pre @ line # rest) = ?end" .
  show "main fs p (pre @ line # rest) = ?end"
    using main_run [OF assms(1), of "pre @ line # rest" 0] r by simp
qed

text \<open>
  In \<open>three_siblings\<close>: \<^verbatim>\<open>q\<close> one level down ends the program with no summary;
  \<^verbatim>\<open>s\<close> at the start prints the summary, 0 directories and 0 bytes.
\<close>

theorem quit_skips_summary_witness:
  "read_choice '' Q'' = ''q''
   \<and> status (main three_siblings [''home''] [''1'', '' Q'', ''s'']) = Exited 0
   \<and> out (main three_siblings [''home''] [''1'', '' Q'', ''s'']) =
       [Banner,
        Shown [''home''] [(''node_modules'', ''node_modules'', 9)] None
          [''alpha'', ''beta'', ''gamma''] [Wipe, Clean, Enter 3, Rescan, SkipIt, Quit],
        Shown [''home'', ''alpha''] [] None [] [GoUp, NextFolder, SkipIt, Quit],
        Quitting]
   \<and> status (main three_siblings [''home''] [''S'']) = Exited 0
   \<and> out (main three_siblings [''home''] [''S'']) =
       [Banner,
        Shown [''home''] [(''node_modules'', ''node_modules'', 9)] None
          [''alpha'', ''beta'', ''gamma''] [Wipe, Clean, Enter 3, Rescan, SkipIt, Quit],
        Summary 0 0]"
proof -
  let ?st = "run (start three_siblings [''home'']) [''1'']"
  let ?init = "run (start three_siblings [''home'']) []"
  have h1: "lookup three_siblings [''home''] \<noteq> None" by code_simp
  have h3: "status ?st = Running" by code_simp
  have h4: "\<not> awaiting_enter (current ?st)" by code_simp
  have q: "read_choice '' Q'' = ''q''" by code_simp
  have o: "out ?st =
       [Banner,
        Shown [''home''] [(''node_modules'', ''node_modules'', 9)] None
          [''alpha'', ''beta'', ''gamma''] [Wipe, Clean, Enter 3, Rescan, SkipIt, Quit],
        Shown [''home'', ''alpha''] [] None [] [GoUp, NextFolder, SkipIt, Quit]]" by code_simp
  have m: "main three_siblings [''home''] ([''1''] @ '' Q'' # [''s'']) =
        ?st\<lparr>out := out ?st @ [Quitting], status := Exited 0\<rparr>"
    using quit_skips_summary [OF h1 refl h3 h4, of "'' Q''" "[''s'']"] q by blast
  have g3: "status ?init = Running" by code_simp
  have g4: "\<not> awaiting_enter (current ?init)" by code_simp
  have s: "read_choice ''S'' = ''s''" by code_simp
  have c: "callers ?init = []" by code_simp
  have o0: "out ?init =
       [Banner,
        Shown [''home''] [(''node_modules'', ''node_modules'', 9)] None
          [''alpha'', ''beta'', ''gamma''] [Wipe, Clean, Enter 3, Rescan, SkipIt, Quit]]" by code_simp
  have z: "deleted_count (stats ?init) = 0" "total_freed (stats ?init) = 0" by code_simp+
  have m0: "main three_siblings [''home''] ([] @ ''S'' # []) =
        ?init\<lparr>out := out ?init @ [Summary (deleted_count (stats ?init)) (total_freed (stats ?init))],
             status := Exited 0\<rparr>"
    using quit_skips_summary [OF h1 refl g3 g4, of "''S''" "[]"] s c by blast
  have a1: "status (main three_siblings [''home''] [''1'', '' Q'', ''s'']) = Exited 0"
    using m by simp
  have a2: "out (main three_siblings [''home''] [''1'', '' Q'', ''s'']) =
       [Banner,
        Shown [''home''] [(''node_modules'', ''node_modules'', 9)] None
          [''alpha'', ''beta'', ''gamma''] [Wipe, Clean, Enter 3, Rescan, SkipIt, Quit],
        Shown [''home'', ''alpha''] [] None [] [GoUp, NextFolder, SkipIt, Quit],
        Quitting]"
    using m o by simp
  have a3: "status (main three_siblings [''home''] [''S'']) = Exited 0"
    using m0 by simp
  have a4: "out (main three_siblings [''home''] [''S'']) =
       [Banner,
        Shown [''home''] [(''node_modules'', ''node_modules'', 9)] None
          [''alpha'', ''beta'', ''gamma''] [Wipe, Clean, Enter 3, Rescan, SkipIt, Quit],
        Summary 0 0]"
    using m0 o0 z by simp
  show ?thesis using q a1 a2 a3 a4 by (intro conjI)
qed

section \<open>Stepping between siblings\<close>

lemma in_range_display [simp]: "in_range (display st) = in_range st"
  by (simp add: in_range_def)

lemma in_range_out [simp]: "in_range (st\<lparr>out := x\<rparr>) = in_range st"
  by (simp add: in_range_def)

lemma in_range_descend:
  assumes "in_range st" "0 \<le> i" "i < int (length subs)"
  shows "in_range (descend subs i st)"
  using assms by (simp add: descend_def in_range_def frame_in_range_def new_frame_def)

lemma after_child_bounds:
  assumes "0 \<le> i" "i < len" "after_child r i len = (Some j, msgs)"
  shows "0 \<le> j"
  using assms by (cases r) (auto simp: after_child_def split: if_splits)

lemma in_range_return:
  assumes "in_range st"
  shows "in_range (return_to_caller r st)"
proof (cases "callers st")
  case Nil
  with assms show ?thesis by (simp add: return_to_caller_def in_range_def)
next
  case (Cons c rest)
  obtain caller subdirs idx where c: "c = (caller, subdirs, idx)" by (cases c) auto
  obtain j msgs where a: "after_child r idx (int (length subdirs)) = (j, msgs)"
    by (cases "after_child r idx (int (length subdirs))") auto
  have b: "0 \<le> idx" "idx < int (length subdirs)" and bk: "in_range (st\<lparr>current := caller, callers := rest\<rparr>)"
    using assms Cons c by (simp_all add: in_range_def)
  show ?thesis
  proof (cases j)
    case None
    then show ?thesis using bk by (simp add: return_to_caller_def Cons c a Let_def)
  next
    case (Some k)
    have "0 \<le> k" using after_child_bounds [OF b] a Some by simp
    then show ?thesis
      using bk in_range_descend [of "st\<lparr>current := caller, callers := rest, out := out st @ msgs\<rparr>" k subdirs]
      by (simp add: return_to_caller_def Cons c a Some Let_def in_range_def)
  qed
qed

lemma in_range_same:
  assumes "parent_subdirs (current st') = parent_subdirs (current st)"
    and "current_idx (current st') = current_idx (current st)"
    and "callers st' = callers st"
  shows "in_range st' = in_range st"
  using assms by (auto simp: in_range_def frame_in_range_def split: option.splits)

lemma in_range_scan: "in_range (do_scan st) = in_range st"
  by (rule in_range_same) (simp_all add: do_scan_def Let_def split: prod.splits)

lemma in_range_wipe: "in_range (do_wipe st) = in_range st"
  by (rule in_range_same) (simp_all add: do_wipe_def Let_def split: prod.splits)

lemma in_range_clean: "in_range (do_clean st) = in_range st"
  by (rule in_range_same) (simp_all add: do_clean_def Let_def split: prod.splits)

lemma in_range_step: "in_range st \<Longrightarrow> in_range (step st l)"
proof -
  assume i: "in_range st"
  have enter: "in_range (st\<lparr>current := (current st)\<lparr>awaiting_enter := False\<rparr>\<rparr>)"
    using i by (simp add: in_range_same [of "st\<lparr>current := (current st)\<lparr>awaiting_enter := False\<rparr>\<rparr>" st])
  have desc: "in_range (descend (subdirs_at (root st) (directory (current st))) 0 st)"
    if "subdirs_at (root st) (directory (current st)) \<noteq> []"
    using i that by (intro in_range_descend) simp_all
  have quit: "in_range (st\<lparr>out := x, status := y\<rparr>)" for x y
    using i by (simp add: in_range_def)
  show ?thesis
    using i enter desc quit
    by (simp add: step_def Let_def in_range_return in_range_scan in_range_wipe in_range_clean
        split: status.splits)
qed

lemma in_range_run: "in_range st \<Longrightarrow> in_range (run st ls)"
  by (induction ls arbitrary: st) (simp_all add: in_range_step)

lemma index_of_bound: "index_of xs x = Some i \<Longrightarrow> i < length xs"
  by (induction xs arbitrary: i) (auto split: if_splits)

lemma in_range_start: "in_range (start fs p)"
  by (auto simp: start_def siblings_def Let_def in_range_def frame_in_range_def new_frame_def
      dest: index_of_bound split: option.splits if_splits)

text \<open>
  C9. At sibling index 0 the action \<^verbatim>\<open>p\<close> is not available, and at the last index
  \<^verbatim>\<open>n\<close> is not. The caller's loop, given \<^verbatim>\<open>'next'\<close> or \<^verbatim>\<open>'prev'\<close> at an index
  \<open>i\<close> of \<open>len\<close> siblings, moves to \<open>i + 1\<close> or \<open>i - 1\<close> clamped to the ends, never
  around them, and prints its notice exactly when it clamps: no more folders past the
  last, already at first before the first. Throughout every run of the program, the
  index with which a directory is visited lies within \<open>0\<close> and the number of its
  siblings less one, for the running activation and for all that wait.
\<close>

theorem sibling_stepping:
  "(current_idx f = Some 0 \<longrightarrow> \<not> has_prev f)
   \<and> (parent_subdirs f = Some ps \<and> current_idx f = Some (int (length ps) - 1) \<longrightarrow> \<not> has_next f)
   \<and> (0 \<le> i \<and> i < len \<longrightarrow>
        after_child Next i len =
          (Some (min (i + 1) (len - 1)), if i = len - 1 then [NoMoreFolders] else [])
      \<and> after_child Prev i len =
          (Some (max (i - 1) 0), if i = 0 then [AlreadyAtFirst] else []))
   \<and> in_range (run (start fs p) lines)"
proof -
  have a: "current_idx f = Some 0 \<longrightarrow> \<not> has_prev f"
    by (simp add: has_prev_def split: option.splits)
  have b: "parent_subdirs f = Some ps \<and> current_idx f = Some (int (length ps) - 1) \<longrightarrow> \<not> has_next f"
    by (simp add: has_next_def)
  have c: "0 \<le> i \<and> i < len \<longrightarrow>
        after_child Next i len =
          (Some (min (i + 1) (len - 1)), if i = len - 1 then [NoMoreFolders] else [])
      \<and> after_child Prev i len =
          (Some (max (i - 1) 0), if i = 0 then [AlreadyAtFirst] else [])"
    by (auto simp: after_child_def)
  have d: "in_range (run (start fs p) lines)"
    using in_range_start by (rule in_range_run)
  show ?thesis using a b c d by (intro conjI)
qed

text \<open>
  In \<open>three_siblings\<close>: entering the first of three siblings, \<^verbatim>\<open>p\<close> is refused there,
  \<^verbatim>\<open>n\<close> twice leads to the third, and \<^verbatim>\<open>n\<close> is refused there.
\<close>

theorem sibling_stepping_witness:
  "current_idx (current (run (start three_siblings [''home'']) [''1''])) = Some 0
   \<and> \<not> has_prev (current (run (start three_siblings [''home'']) [''1'']))
   \<and> out (run (start three_siblings [''home'']) [''1'', ''p'', ''n'', ''n'', ''n'']) =
       [Banner,
        Shown [''home''] [(''node_modules'', ''node_modules'', 9)] None
          [''alpha'', ''beta'', ''gamma''] [Wipe, Clean, Enter 3, Rescan, SkipIt, Quit],
        Shown [''home'', ''alpha''] [] None [] [GoUp, NextFolder, SkipIt, Quit],
        InvalidChoice,
        Shown [''home'', ''alpha''] [] None [] [GoUp, NextFolder, SkipIt, Quit],
        Shown [''home'', ''beta''] [] None [] [GoUp, NextFolder, PrevFolder, SkipIt, Quit],
        Shown [''home'', ''gamma''] [] None [] [GoUp, PrevFolder, SkipIt, Quit],
        InvalidChoice,
        Shown [''home'', ''gamma''] [] None [] [GoUp, PrevFolder, SkipIt, Quit]]
   \<and> current_idx (current (run (start three_siblings [''home'']) [''1'', ''p'', ''n'', ''n'', ''n''])) = Some 2
   \<and> \<not> has_next (current (run (start three_siblings [''home'']) [''1'', ''p'', ''n'', ''n'', ''n'']))
   \<and> after_child Next 0 3 = (Some 1, [])
   \<and> after_child Next 2 3 = (Some 2, [NoMoreFolders])
   \<and> after_child Prev 0 3 = (Some 0, [AlreadyAtFirst])
   \<and> after_child Prev 2 3 = (Some 1, [])
   \<and> in_range (run (start three_siblings [''home'']) [''1'', ''p'', ''n'', ''n'', ''n''])"
proof -
  let ?a = "current (run (start three_siblings [''home'']) [''1''])"
  let ?g = "current (run (start three_siblings [''home'']) [''1'', ''p'', ''n'', ''n'', ''n''])"
  let ?ps = "[[''home'', ''alpha''], [''home'', ''beta''], [''home'', ''gamma'']]"
  have i0: "current_idx ?a = Some 0" by code_simp
  have i2: "parent_subdirs ?g = Some ?ps \<and> current_idx ?g = Some (int (length ?ps) - 1)" by code_simp
  have i2': "current_idx ?g = Some 2" by code_simp
  have o: "out (run (start three_siblings [''home'']) [''1'', ''p'', ''n'', ''n'', ''n'']) =
       [Banner,
        Shown [''home''] [(''node_modules'', ''node_modules'', 9)] None
          [''alpha'', ''beta'', ''gamma''] [Wipe, Clean, Enter 3, Rescan, SkipIt, Quit],
        Shown [''home'', ''alpha''] [] None [] [GoUp, NextFolder, SkipIt, Quit],
        InvalidChoice,
        Shown [''home'', ''alpha''] [] None [] [GoUp, NextFolder, SkipIt, Quit],
        Shown [''home'', ''beta''] [] None [] [GoUp, NextFolder, PrevFolder, SkipIt, Quit],
        Shown [''home'', ''gamma''] [] None [] [GoUp, PrevFolder, SkipIt, Quit],
        InvalidChoice,
        Shown [''home'', ''gamma''] [] None [] [GoUp, PrevFolder, SkipIt, Quit]]" by code_simp
  note t0 = sibling_stepping [of ?a ?ps 0 3 three_siblings "[''home'']" "[''1'', ''p'', ''n'', ''n'', ''n'']"]
  note t2 = sibling_stepping [of ?g ?ps 2 3 three_siblings "[''home'']" "[''1'', ''p'', ''n'', ''n'', ''n'']"]
  have p0: "\<not> has_prev ?a" using t0 i0 by blast
  have n2: "\<not> has_next ?g" using t2 i2 by blast
  have s0: "after_child Next 0 3 = (Some 1, [])" "after_child Prev 0 3 = (Some 0, [AlreadyAtFirst])"
    using t0 by simp_all
  have s2: "after_child Next 2 3 = (Some 2, [NoMoreFolders])" "after_child Prev 2 3 = (Some 1, [])"
    using t2 by simp_all
  have r: "in_range (run (start three_siblings [''home'']) [''1'', ''p'', ''n'', ''n'', ''n''])"
    using t0 by blast
  show ?thesis using i0 p0 o i2' n2 s0 s2 r by (intro conjI)
qed

section \<open>Siblings of the starting directory\<close>



end
